theory Spec2Isabelle
  imports Complex_Main "HOL-Library.AList" "HOL-Library.Sublist"
begin

section \<open>Values of the host language\<close>

text \<open>
  The parser of \<^verbatim>\<open>lib/ceramic-dictionary-parser.js\<close> works on untyped JavaScript values.
  A number is a finite rational (every finite double is one), NaN or an infinity; only
  its truthiness is ever inspected by the parser.  An object is the list of its own
  properties in insertion order; an array is the list of its elements (a hole reads as
  \<open>undefined\<close>, like an element that is \<open>undefined\<close>) together with its own named
  properties.  Inherited properties and the built-in \<open>length\<close> property are not part
  of the model, and an array index is any natural number.  The target is a tree: no
  object or array is reachable from it along two paths.
\<close>

datatype jsnumber = Fin rat | NaN | PosInfinity | NegInfinity

datatype jsval =
    JUndefined
  | JNull
  | JBool bool
  | JNum jsnumber
  | JStr string
  | JObj "(string \<times> jsval) list"
  | JArr "jsval list" "(string \<times> jsval) list"

text \<open>
  A property key is a string (the names enumerated by \<open>for ... in\<close>) or a number (the
  counter of the indexed array loop).  Strict equality tells the two apart; property
  access does not.
\<close>

datatype key = KStr string | KNum nat

datatype error = TypeError | Error string

text \<open>
  What a call does: it returns a value, throws, or (in the model only) runs out of the
  iteration budget of a \<open>while (true)\<close> loop.
\<close>

datatype 'a outcome = Returned 'a | Threw error | Diverged

fun is_truthy :: "jsval \<Rightarrow> bool" where
  "is_truthy JUndefined = False"
| "is_truthy JNull = False"
| "is_truthy (JBool b) = b"
| "is_truthy (JNum n) = (n \<noteq> NaN \<and> n \<noteq> Fin 0)"
| "is_truthy (JStr s) = (s \<noteq> [])"
| "is_truthy (JObj ps) = True"
| "is_truthy (JArr xs ps) = True"

fun is_array :: "jsval \<Rightarrow> bool" where
  "is_array (JArr xs ps) = True"
| "is_array v = False"

fun is_object :: "jsval \<Rightarrow> bool" where
  "is_object (JObj ps) = True"
| "is_object (JArr xs ps) = True"
| "is_object v = False"

subsection \<open>Numbers as property names\<close>

definition digit_char :: "nat \<Rightarrow> char" where
  "digit_char d = ''0123456789'' ! (d mod 10)"

fun show_nat :: "nat \<Rightarrow> string" where
  "show_nat n = (if n < 10 then [digit_char n] else show_nat (n div 10) @ [digit_char n])"

definition digit_val :: "char \<Rightarrow> nat option" where
  "digit_val c =
     (let code = (of_char c :: nat)
      in if 48 \<le> code \<and> code \<le> 57 then Some (code - 48) else None)"

fun read_digits :: "nat \<Rightarrow> string \<Rightarrow> nat option" where
  "read_digits acc [] = Some acc"
| "read_digits acc (c # cs) =
     (case digit_val c of None \<Rightarrow> None | Some d \<Rightarrow> read_digits (10 * acc + d) cs)"

text \<open>A string is an array index when it is the canonical decimal form of a number.\<close>

definition index_of_string :: "string \<Rightarrow> nat option" where
  "index_of_string s =
     (case s of
        [] \<Rightarrow> None
      | c # cs \<Rightarrow> if c = CHR ''0'' \<and> cs \<noteq> [] then None else read_digits 0 s)"

fun key_name :: "key \<Rightarrow> string" where
  "key_name (KStr s) = s"
| "key_name (KNum n) = show_nat n"

fun key_index :: "key \<Rightarrow> nat option" where
  "key_index (KStr s) = index_of_string s"
| "key_index (KNum n) = Some n"

subsection \<open>Property access\<close>

definition lookup :: "(string \<times> jsval) list \<Rightarrow> string \<Rightarrow> jsval" where
  "lookup ps name = (case map_of ps name of None \<Rightarrow> JUndefined | Some v \<Rightarrow> v)"

definition element :: "jsval list \<Rightarrow> nat \<Rightarrow> jsval" where
  "element xs i = (if i < length xs then xs ! i else JUndefined)"

definition set_element :: "jsval list \<Rightarrow> nat \<Rightarrow> jsval \<Rightarrow> jsval list" where
  "set_element xs i v =
     (if i < length xs then xs[i := v] else xs @ replicate (i - length xs) JUndefined @ [v])"

text \<open>\<open>obj[k]\<close> as an expression: reading a property of \<open>undefined\<close> or \<open>null\<close> throws.\<close>

fun get_prop :: "jsval \<Rightarrow> key \<Rightarrow> error + jsval" where
  "get_prop JUndefined k = Inl TypeError"
| "get_prop JNull k = Inl TypeError"
| "get_prop (JBool b) k = Inr JUndefined"
| "get_prop (JNum n) k = Inr JUndefined"
| "get_prop (JStr s) k =
     (case key_index k of
        Some i \<Rightarrow> Inr (if i < length s then JStr [s ! i] else JUndefined)
      | None \<Rightarrow> Inr JUndefined)"
| "get_prop (JObj ps) k = Inr (lookup ps (key_name k))"
| "get_prop (JArr xs ps) k =
     (case key_index k of
        Some i \<Rightarrow> Inr (element xs i)
      | None \<Rightarrow> Inr (lookup ps (key_name k)))"

text \<open>The effect of a successful \<open>obj[k] = v\<close> on an object or array.\<close>

fun put_prop :: "jsval \<Rightarrow> key \<Rightarrow> jsval \<Rightarrow> jsval" where
  "put_prop (JObj ps) k v = JObj (AList.update (key_name k) v ps)"
| "put_prop (JArr xs ps) k v =
     (case key_index k of
        Some i \<Rightarrow> JArr (set_element xs i v) ps
      | None \<Rightarrow> JArr xs (AList.update (key_name k) v ps))"
| "put_prop prim k v = prim"

text \<open>
  \<open>obj[k] = v\<close> as a statement.  The file is in strict mode, so assigning a property of
  a primitive value throws, as it does for \<open>undefined\<close> and \<open>null\<close>.
\<close>

definition set_prop :: "jsval \<Rightarrow> key \<Rightarrow> jsval \<Rightarrow> error + jsval" where
  "set_prop obj k v = (if is_object obj then Inr (put_prop obj k v) else Inl TypeError)"

text \<open>\<open>obj.push(v)\<close>; the parser calls it only after \<open>obj instanceof Array\<close>.\<close>

fun array_push :: "jsval \<Rightarrow> jsval \<Rightarrow> jsval" where
  "array_push (JArr xs ps) v = JArr (xs @ [v]) ps"
| "array_push other v = other"

text \<open>\<open>segments.join(delimiter)\<close>.\<close>

fun join :: "string \<Rightarrow> string list \<Rightarrow> string" where
  "join d [] = []"
| "join d [s] = s"
| "join d (s # t # ss) = s @ d @ join d (t # ss)"

section \<open>Schemas\<close>

text \<open>
  A field definition has a \<open>type\<close>, optional \<open>items\<close> and an optional \<open>entitySchema\<close>.
  An entity schema has the ordered \<open>schema.properties\<close> (distinct names, in the order
  \<open>for ... in\<close> enumerates them), a constructor or none, the names marked in \<open>mapping\<close>
  and an optional list \<open>htmlFields\<close>.  The constructor yields a fresh empty instance.
\<close>

datatype fdef =
  FDef (def_type: string) (def_items: "fdef option") (def_entitySchema: "eschema option")
and eschema =
  ESchema (es_properties: "(string \<times> fdef) list") (es_ctor: bool)
          (es_mapping: "string list") (es_htmlFields: "string list option")

text \<open>
  The \<open>entitySchema\<close> argument of the setters is the enclosing entity schema or, inside
  an indexed array, the array's own field definition, which has neither \<open>mapping\<close> nor
  \<open>htmlFields\<close>.
\<close>

datatype enclosing = Schema eschema | Items fdef

fun mapping_has :: "enclosing \<Rightarrow> key \<Rightarrow> bool" where
  "mapping_has (Schema es) k = (key_name k \<in> set (es_mapping es))"
| "mapping_has (Items d) k = False"

text \<open>
  \<open>entitySchema && entitySchema.htmlFields && entitySchema.htmlFields.indexOf(fieldName) !== -1\<close>:
  \<open>indexOf\<close> compares with strict equality, so a numeric field name is never found.
\<close>

fun html_has :: "enclosing option \<Rightarrow> key \<Rightarrow> bool" where
  "html_has (Some (Schema es)) (KStr s) =
     (case es_htmlFields es of None \<Rightarrow> False | Some hs \<Rightarrow> s \<in> set hs)"
| "html_has e k = False"

definition isPrimitiveType :: "string \<Rightarrow> bool" where
  "isPrimitiveType t =
     (t \<in> set [''string'', ''number'', ''integer'', ''boolean'', ''array''])"

definition isCustomType :: "string \<Rightarrow> bool" where
  "isCustomType t = (\<not> isPrimitiveType t)"

section \<open>The parser\<close>

text \<open>
  \<open>parseInt\<close>, \<open>parseFloat\<close> and the \<open>sanitizer\<close> package are not part of the
  repository; they are parameters of the model.  Each takes the value it is handed and
  does its own conversion to a string.
\<close>

record host =
  parseInt :: "jsval \<Rightarrow> jsnumber"
  parseFloat :: "jsval \<Rightarrow> jsnumber"
  escape :: "jsval \<Rightarrow> string"
  sanitize :: "string \<Rightarrow> string"
  unescapeEntities :: "jsval \<Rightarrow> string"

text \<open>
  A parser instance: the value source \<open>this.getter\<close> (a key that is absent yields
  \<open>undefined\<close>) and \<open>this.options.delimiter\<close>.
\<close>

record parser =
  getter :: "string \<Rightarrow> jsval"
  delimiter :: string
  lib :: host

record parser_options =
  opt_delimiter :: "string option"
  opt_getter :: "(string \<Rightarrow> jsval) option"

definition dict_getter :: "(string \<times> jsval) list \<Rightarrow> string \<Rightarrow> jsval" where
  "dict_getter dict name = lookup dict name"

definition DictParser :: "(string \<times> jsval) list \<Rightarrow> parser_options \<Rightarrow> host \<Rightarrow> parser" where
  "DictParser dict options h =
     \<lparr> getter = (case opt_getter options of Some g \<Rightarrow> g | None \<Rightarrow> dict_getter dict),
       delimiter = (case opt_delimiter options of
                      Some d \<Rightarrow> if d = [] then ''_'' else d
                    | None \<Rightarrow> ''_''),
       lib = h \<rparr>"

text \<open>The \<open>options\<close> argument of \<open>map\<close>.\<close>

record map_options =
  overwrite :: bool

subsection \<open>parseSimpleType and getField\<close>

definition parseSimpleType :: "host \<Rightarrow> jsval \<Rightarrow> key \<Rightarrow> fdef \<Rightarrow> enclosing option \<Rightarrow> error + jsval" where
  "parseSimpleType h val fieldName def entitySchema =
     (if is_truthy val then
        (if def_type def = ''integer'' then Inr (JNum (parseInt h val))
         else if def_type def = ''number'' then Inr (JNum (parseFloat h val))
         else if def_type def = ''string'' then
           Inr (JStr (if html_has entitySchema fieldName
                      then sanitize h (unescapeEntities h val)
                      else escape h val))
         else if def_type def = ''boolean'' then
           Inr (JBool (val = JBool True \<or> val = JStr ''true''))
         else Inl (Error (def_type def @ '' '' @ key_name fieldName
                          @ '' is not a primitive type or is an array. Cannot parse.'')))
      else Inr JUndefined)"

text \<open>
  The optional second argument of \<open>getField\<close>: absent, a type name, or a definition.
  An empty type name is falsy and is replaced by the default, as an absent argument is.
\<close>

datatype defarg = DefAbsent | DefName string | DefObj fdef

text \<open>
  Every function below that can reach the value source also takes and returns the list
  of flat keys fetched so far, oldest first.
\<close>

definition getField :: "parser \<Rightarrow> string \<Rightarrow> defarg \<Rightarrow> string list \<Rightarrow> (error + jsval) \<times> string list" where
  "getField p name d seen =
     (let def = (case d of
                   DefAbsent \<Rightarrow> FDef ''string'' None None
                 | DefName t \<Rightarrow> if t = [] then FDef ''string'' None None else FDef t None None
                 | DefObj f \<Rightarrow> f);
          val = getter p name
      in (if is_truthy val then parseSimpleType (lib p) val (KStr name) def None
          else Inr JUndefined,
          seen @ [name]))"

subsection \<open>setSimpleType\<close>

definition setSimpleType ::
  "parser \<Rightarrow> jsval \<Rightarrow> key \<Rightarrow> fdef \<Rightarrow> enclosing \<Rightarrow> string list list \<Rightarrow> map_options
     \<Rightarrow> key list \<Rightarrow> string list \<Rightarrow> bool outcome \<times> jsval \<times> string list" where
  "setSimpleType p obj fieldName def entitySchema whitelist options parents seen =
     (case getField p (join (delimiter p) (map key_name (parents @ [fieldName]))) DefAbsent seen of
        (Inl e, seen') \<Rightarrow> (Threw e, obj, seen')
      | (Inr val, seen') \<Rightarrow>
          if is_truthy val then
            (case parseSimpleType (lib p) val fieldName def (Some entitySchema) of
               Inl e \<Rightarrow> (Threw e, obj, seen')
             | Inr result \<Rightarrow>
                 if \<not> is_array obj then
                   (if overwrite options then
                      (case set_prop obj fieldName result of
                         Inl e \<Rightarrow> (Threw e, obj, seen')
                       | Inr obj' \<Rightarrow> (Returned True, obj', seen'))
                    else
                      (case get_prop obj fieldName of
                         Inl e \<Rightarrow> (Threw e, obj, seen')
                       | Inr cur \<Rightarrow>
                           (case set_prop obj fieldName (if is_truthy cur then cur else result) of
                              Inl e \<Rightarrow> (Threw e, obj, seen')
                            | Inr obj' \<Rightarrow> (Returned True, obj', seen'))))
                 else (Returned True, array_push obj result, seen'))
          else (Returned False, obj, seen'))"

subsection \<open>The whitelist\<close>

text \<open>
  A whitelist entry is a path split into its segments.  \<open>e[0] === fieldName\<close> holds when
  the entry has a first segment and the field name is that very string.
\<close>

fun first_segment_is :: "string list \<Rightarrow> key \<Rightarrow> bool" where
  "first_segment_is (s # ss) (KStr f) = (s = f)"
| "first_segment_is e k = False"

text \<open>
  \<open>whitelist.indexOf(fieldName)\<close> in \<open>setArray\<close> compares each entry, an array of
  segments, with the field name by strict equality.
\<close>

definition entry_strict_equals :: "string list \<Rightarrow> key \<Rightarrow> bool" where
  "entry_strict_equals e k = False"

definition whitelist_indexOf :: "string list list \<Rightarrow> key \<Rightarrow> int" where
  "whitelist_indexOf whitelist k =
     (case List.find (\<lambda>i. entry_strict_equals (whitelist ! i) k) [0 ..< length whitelist] of
        None \<Rightarrow> - 1
      | Some i \<Rightarrow> int i)"

subsection \<open>setField, setArray, setCustomType and map_impl\<close>

text \<open>
  The CSV branch of \<open>setArray\<close>.  Once the whitelist test has passed, the value is
  fetched; \<open>val.split(',')\<close> throws if the value is \<open>undefined\<close>, and otherwise yields at
  least one item, for which the \<open>forEach\<close> callback evaluates \<open>this.parseSimpleType\<close>
  without a receiver and throws.
\<close>

definition setArray_csv ::
  "parser \<Rightarrow> jsval \<Rightarrow> key \<Rightarrow> fdef \<Rightarrow> string list list \<Rightarrow> key list \<Rightarrow> string list
     \<Rightarrow> bool outcome \<times> jsval \<times> string list" where
  "setArray_csv p obj fieldName def whitelist parents seen =
     (case def_items def of
        None \<Rightarrow> (Threw TypeError, obj, seen)
      | Some it \<Rightarrow>
          if def_type it \<noteq> ''array'' then
            (if whitelist_indexOf whitelist fieldName \<noteq> - 1 then
               (case getField p (join ''_'' (map key_name (parents @ [fieldName]))) DefAbsent seen of
                  (Inl e, seen') \<Rightarrow> (Threw e, obj, seen')
                | (Inr val, seen') \<Rightarrow> (Threw TypeError, obj, seen'))
             else (Returned False, obj, seen))
          else (Threw (Error ''Cannot map array of arrays''), obj, seen))"

text \<open>
  One turn of the \<open>while (true)\<close> loop after \<open>setField\<close> has come back with \<open>r\<close> and has
  left \<open>newArray'\<close>: either the loop is over (left) or it goes on with the updated \<open>obj\<close>
  and the new value of \<open>attached\<close> (right).  \<open>attached\<close> says that \<open>newArray\<close> is the very
  value held by \<open>obj[fieldName]\<close>, so what was pushed onto it shows in \<open>obj\<close>.
\<close>

definition loop_turn ::
  "bool outcome \<Rightarrow> jsval \<Rightarrow> key \<Rightarrow> jsval \<Rightarrow> bool \<Rightarrow> bool
     \<Rightarrow> (bool outcome \<times> jsval) + (jsval \<times> bool)" where
  "loop_turn r obj fieldName newArray' attached changed =
     (let obj1 = (if attached then put_prop obj fieldName newArray' else obj) in
      case r of
        Returned b \<Rightarrow>
          if b then
            (case get_prop obj1 fieldName of
               Inl e \<Rightarrow> Inl (Threw e, obj1)
             | Inr cur \<Rightarrow>
                 (case set_prop obj1 fieldName (if is_truthy cur then cur else newArray') of
                    Inl e \<Rightarrow> Inl (Threw e, obj1)
                  | Inr obj2 \<Rightarrow> Inr (obj2, attached \<or> \<not> is_truthy cur)))
          else Inl (Returned changed, obj1)
      | Threw e \<Rightarrow> Inl (Threw e, obj1)
      | Diverged \<Rightarrow> Inl (Diverged, obj1))"

text \<open>
  The end of \<open>setCustomType\<close>: the new object is attached to its parent when
  \<open>map_impl\<close> reports a change, and is dropped otherwise.
\<close>

definition attach_custom ::
  "jsval \<Rightarrow> key \<Rightarrow> bool outcome \<times> jsval \<times> string list \<Rightarrow> bool outcome \<times> jsval \<times> string list" where
  "attach_custom obj fieldName res =
     (case res of
        (r, newObj, seen') \<Rightarrow>
          (case r of
             Returned b \<Rightarrow>
               if b then
                 (if \<not> is_array obj then
                    (case set_prop obj fieldName newObj of
                       Inl e \<Rightarrow> (Threw e, obj, seen')
                     | Inr obj' \<Rightarrow> (Returned True, obj', seen'))
                  else (Returned True, array_push obj newObj, seen'))
               else (Returned False, obj, seen')
           | Threw e \<Rightarrow> (Threw e, obj, seen')
           | Diverged \<Rightarrow> (Diverged, obj, seen')))"

text \<open>
  The generator functions are run by a coroutine driver, for which the \<open>yield\<close> of a
  generator is a call that comes back with its return value.  The first argument of
  the functions below bounds the iterations of each \<open>while (true)\<close> loop of \<open>setArray\<close>;
  everything else is structural recursion on the schema.  \<open>parents\<close> is pushed before
  and popped after each recursive call, so a call receives the extended stack and the
  caller keeps its own.  Where \<open>setField\<close> falls through and returns \<open>undefined\<close>, the
  model returns \<open>false\<close>: its callers only test the result for truthiness.
\<close>

function (sequential) setField ::
  "nat \<Rightarrow> parser \<Rightarrow> jsval \<Rightarrow> key \<Rightarrow> fdef \<Rightarrow> enclosing \<Rightarrow> string list list \<Rightarrow> map_options
     \<Rightarrow> key list \<Rightarrow> string list \<Rightarrow> bool outcome \<times> jsval \<times> string list"
and setArray ::
  "nat \<Rightarrow> parser \<Rightarrow> jsval \<Rightarrow> key \<Rightarrow> fdef \<Rightarrow> enclosing \<Rightarrow> string list list \<Rightarrow> map_options
     \<Rightarrow> key list \<Rightarrow> string list \<Rightarrow> bool outcome \<times> jsval \<times> string list"
and array_loop ::
  "nat \<Rightarrow> parser \<Rightarrow> jsval \<Rightarrow> key \<Rightarrow> fdef \<Rightarrow> string list list \<Rightarrow> map_options
     \<Rightarrow> key list \<Rightarrow> nat \<Rightarrow> jsval \<Rightarrow> bool \<Rightarrow> bool \<Rightarrow> string list
     \<Rightarrow> bool outcome \<times> jsval \<times> string list"
and setCustomType ::
  "nat \<Rightarrow> parser \<Rightarrow> jsval \<Rightarrow> key \<Rightarrow> fdef \<Rightarrow> enclosing \<Rightarrow> string list list \<Rightarrow> map_options
     \<Rightarrow> key list \<Rightarrow> string list \<Rightarrow> bool outcome \<times> jsval \<times> string list"
and map_impl ::
  "nat \<Rightarrow> parser \<Rightarrow> jsval \<Rightarrow> eschema \<Rightarrow> string list list \<Rightarrow> map_options
     \<Rightarrow> key list \<Rightarrow> string list \<Rightarrow> bool outcome \<times> jsval \<times> string list"
and map_fields ::
  "nat \<Rightarrow> parser \<Rightarrow> jsval \<Rightarrow> eschema \<Rightarrow> (string \<times> fdef) list \<Rightarrow> string list list
     \<Rightarrow> map_options \<Rightarrow> key list \<Rightarrow> bool \<Rightarrow> string list
     \<Rightarrow> bool outcome \<times> jsval \<times> string list"
where
  "setField n p obj fieldName def entitySchema whitelist options parents seen =
     (if isPrimitiveType (def_type def) then
        (if def_type def \<noteq> ''array'' then
           (if whitelist \<noteq> [] \<and> first_segment_is (hd whitelist) fieldName
            then setSimpleType p obj fieldName def entitySchema whitelist options parents seen
            else (Returned False, obj, seen))
         else setArray n p obj fieldName def entitySchema whitelist options parents seen)
      else setCustomType n p obj fieldName def entitySchema whitelist options parents seen)"
| "setArray n p obj fieldName def entitySchema whitelist options parents seen =
     (if mapping_has entitySchema fieldName
      then setArray_csv p obj fieldName def whitelist parents seen
      else
        (case get_prop obj fieldName of
           Inl e \<Rightarrow> (Threw e, obj, seen)
         | Inr cur \<Rightarrow>
             array_loop n p obj fieldName def whitelist options (parents @ [fieldName]) 1
               (if is_truthy cur then cur else JArr [] []) (is_truthy cur) False seen))"
| "array_loop 0 p obj fieldName def whitelist options parents counter newArray attached changed seen =
     (Diverged, obj, seen)"
| "array_loop (Suc n) p obj fieldName (FDef t None es) whitelist options parents counter newArray
       attached changed seen =
     (Threw TypeError, obj, seen)"
| "array_loop (Suc n) p obj fieldName (FDef t (Some it) es) whitelist options parents counter newArray
       attached changed seen =
     (case setField n p newArray (KNum counter) it (Items (FDef t (Some it) es)) whitelist options
             parents seen of
        (r, newArray', seen') \<Rightarrow>
          (case loop_turn r obj fieldName newArray' attached changed of
             Inl (res, obj1) \<Rightarrow> (res, obj1, seen')
           | Inr (obj2, attached') \<Rightarrow>
               array_loop n p obj2 fieldName (FDef t (Some it) es) whitelist options parents
                 (Suc counter) newArray' attached' True seen'))"
| "setCustomType n p obj fieldName (FDef t its None) entitySchema whitelist options parents seen =
     (Returned False, obj, seen)"
| "setCustomType n p obj fieldName (FDef t its (Some es)) entitySchema whitelist options parents seen =
     (if es_ctor es then
        attach_custom obj fieldName
          (map_impl n p (JObj []) es (map (drop 1) whitelist) options (parents @ [fieldName]) seen)
      else (Returned False, obj, seen))"
| "map_impl n p target (ESchema props c m h) whitelist options parents seen =
     map_fields n p target (ESchema props c m h) props whitelist options parents False seen"
| "map_fields n p target es [] whitelist options parents changed seen =
     (Returned changed, target, seen)"
| "map_fields n p target es ((fieldName, def) # rest) whitelist options parents changed seen =
     (case setField n p target (KStr fieldName) def (Schema es)
             (filter (\<lambda>e. first_segment_is e (KStr fieldName)) whitelist) options parents seen of
        (r, target', seen') \<Rightarrow>
          (case r of
             Returned b \<Rightarrow>
               map_fields n p target' es rest whitelist options parents (changed \<or> b) seen'
           | Threw e \<Rightarrow> (Threw e, target', seen')
           | Diverged \<Rightarrow> (Diverged, target', seen')))"
  by pat_completeness simp_all

termination
  apply (relation "inv_image (less_than <*lex*> less_than <*lex*> less_than)
     (\<lambda>x. case x of
        Inl (Inl (n, p, obj, k, d, rest)) \<Rightarrow> (size d, n, 3::nat)
      | Inl (Inr (Inl (n, p, obj, k, d, rest))) \<Rightarrow> (size d, n, 2)
      | Inl (Inr (Inr (n, p, obj, k, d, rest))) \<Rightarrow> (size d, n, 1)
      | Inr (Inl (n, p, obj, k, d, rest)) \<Rightarrow> (size d, n, 2)
      | Inr (Inr (Inl (n, p, obj, es, rest))) \<Rightarrow> (size es, n, 1)
      | Inr (Inr (Inr (n, p, obj, es, props, rest))) \<Rightarrow>
          (size_list (size_prod (\<lambda>x. 0) size) props, n, 0))")
  subgoal by (intro wf_inv_image wf_lex_prod wf_less_than)
  apply simp_all
  done

declare setField.simps [simp del] setArray.simps [simp del]

subsection \<open>map\<close>

text \<open>
  \<open>whitelist.map(function(e) { return e.split(this.options.delimiter); })\<close>: the file is
  in strict mode and the callback is called without a receiver, so for the first entry
  the evaluation of \<open>this.options\<close> throws before \<open>split\<close> is called.
\<close>

definition dp_map ::
  "nat \<Rightarrow> parser \<Rightarrow> jsval \<Rightarrow> eschema \<Rightarrow> string list \<Rightarrow> map_options option \<Rightarrow> key list option
     \<Rightarrow> string list \<Rightarrow> bool outcome \<times> jsval \<times> string list" where
  "dp_map n p target entitySchema whitelist options parents seen =
     (let options' = (case options of None \<Rightarrow> \<lparr> overwrite = True \<rparr> | Some opts \<Rightarrow> opts);
          parents' = (case parents of None \<Rightarrow> [] | Some ps \<Rightarrow> ps)
      in case whitelist of
           [] \<Rightarrow> map_impl n p target entitySchema [] options' parents' seen
         | e # es \<Rightarrow> (Threw TypeError, target, seen))"

section \<open>What a pass may write\<close>

text \<open>
  The property paths of a value, each a list of property names from the value down.  An
  array is passed through without a segment: whitelist entries name fields, and the
  elements of an array share the entries of the array's field.
\<close>

fun paths :: "jsval \<Rightarrow> string list set" where
  "paths (JObj ps) = (\<Union>(name, v) \<in> set ps. insert [name] ((#) name ` paths v))"
| "paths (JArr xs ps) =
     (\<Union>v \<in> set xs. paths v) \<union> (\<Union>(name, v) \<in> set ps. insert [name] ((#) name ` paths v))"
| "paths v = {}"

declare paths.simps [simp del]

text \<open>
  The whitelist in force below a path: \<open>map_impl\<close> keeps for a field the entries whose
  first segment is the field's name, and \<open>setCustomType\<close> drops that segment from each
  of them before it descends.  A path is listed when an entry is left for it.
\<close>

fun effective :: "string list list \<Rightarrow> string list \<Rightarrow> string list list" where
  "effective whitelist [] = whitelist"
| "effective whitelist (g # q) =
     effective (map (drop 1) (filter (\<lambda>e. first_segment_is e (KStr g)) whitelist)) q"

definition listed :: "string list list \<Rightarrow> string list \<Rightarrow> bool" where
  "listed whitelist path = (effective whitelist path \<noteq> [])"

text \<open>
  The property names of a schema are the keys of a JavaScript object, so they are
  distinct; the same holds in every schema nested in its field definitions.
\<close>

fun distinct_fields :: "fdef \<Rightarrow> bool" and distinct_properties :: "eschema \<Rightarrow> bool" where
  "distinct_fields (FDef t its eso) =
     ((case its of None \<Rightarrow> True | Some it \<Rightarrow> distinct_fields it)
      \<and> (case eso of None \<Rightarrow> True | Some es \<Rightarrow> distinct_properties es))"
| "distinct_properties (ESchema props c m h) =
     (distinct (map fst props) \<and> list_all (\<lambda>(name, d). distinct_fields d) props)"

section \<open>Hosts and inputs for the evaluations\<close>

text \<open>
  A stand-in for the host functions, used where a property is evaluated on a concrete
  input: \<open>sample_escape\<close> replaces the four characters the sanitizer's \<open>escape\<close>
  replaces and leaves every other character of a string alone; \<open>sample_parseInt\<close> reads
  a string of decimal digits.
\<close>

fun esc_char :: "char \<Rightarrow> string" where
  "esc_char c =
     (if c = CHR ''&'' then ''&amp;'' else if c = CHR ''<'' then ''&lt;''
      else if c = CHR ''>'' then ''&gt;'' else if c = CHR 0x22 then ''&#34;'' else [c])"

fun sample_escape :: "jsval \<Rightarrow> string" where
  "sample_escape (JStr s) = concat (map esc_char s)"
| "sample_escape v = []"

fun sample_parseInt :: "jsval \<Rightarrow> jsnumber" where
  "sample_parseInt (JStr s) =
     (case read_digits 0 s of Some n \<Rightarrow> Fin (of_nat n) | None \<Rightarrow> NaN)"
| "sample_parseInt v = NaN"

definition sample_host :: host where
  "sample_host =
     \<lparr> parseInt = sample_parseInt, parseFloat = sample_parseInt, escape = sample_escape,
       sanitize = (\<lambda>s. s), unescapeEntities = sample_escape \<rparr>"

definition default_options :: parser_options where
  "default_options = \<lparr> opt_delimiter = None, opt_getter = None \<rparr>"

text \<open>The schema \<open>{ name: string, age: integer }\<close> and the source \<open>{ name: "jeswin", age: "33" }\<close>.\<close>

definition person :: eschema where
  "person =
     ESchema [(''name'', FDef ''string'' None None), (''age'', FDef ''integer'' None None)]
       True [] None"

definition person_parser :: "host \<Rightarrow> parser" where
  "person_parser h =
     DictParser [(''name'', JStr ''jeswin''), (''age'', JStr ''33'')] default_options h"

text \<open>An indexed array of persons with flat keys for the elements 1, 2 and 4.\<close>

definition customers :: eschema where
  "customers =
     ESchema [(''customers'', FDef ''array'' (Some (FDef ''customer'' None (Some person))) None)]
       True [] None"

definition customers_parser :: "host \<Rightarrow> parser" where
  "customers_parser h =
     DictParser
       [(''customers_1_name'', JStr ''ann''), (''customers_2_name'', JStr ''bob''),
        (''customers_4_name'', JStr ''dan'')]
       default_options h"

text \<open>An indexed array of integers with flat keys for the elements 1, 2 and 4.\<close>

definition ids :: eschema where
  "ids = ESchema [(''ids'', FDef ''array'' (Some (FDef ''integer'' None None)) None)] True [] None"

definition ids_parser :: "host \<Rightarrow> parser" where
  "ids_parser h =
     DictParser [(''ids_1'', JStr ''1''), (''ids_2'', JStr ''2''), (''ids_4'', JStr ''4'')]
       default_options h"

text \<open>The array \<open>customerids\<close> in CSV mode, with the source \<open>{ customerids: "1,54,66" }\<close>.\<close>

definition order :: eschema where
  "order =
     ESchema [(''customerids'', FDef ''array'' (Some (FDef ''integer'' None None)) None)]
       True [''customerids''] None"

definition order_parser :: "host \<Rightarrow> parser" where
  "order_parser h = DictParser [(''customerids'', JStr ''1,54,66'')] default_options h"

text \<open>An indexed array whose items are indexed arrays of objects.\<close>

definition cell :: eschema where
  "cell = ESchema [(''v'', FDef ''string'' None None)] True [] None"

definition grid :: eschema where
  "grid =
     ESchema
       [(''grid'',
         FDef ''array'' (Some (FDef ''array'' (Some (FDef ''cell'' None (Some cell))) None)) None)]
       True [] None"

definition grid_parser :: "host \<Rightarrow> parser" where
  "grid_parser h = DictParser [(''grid_1_1_v'', JStr ''x'')] default_options h"

text \<open>A source whose value contains a character that escaping replaces.\<close>

definition amp_parser :: "host \<Rightarrow> parser" where
  "amp_parser h = DictParser [(''name'', JStr ''a&b'')] default_options h"

text \<open>A nested person, with a flat key for the name.\<close>

definition household :: eschema where
  "household = ESchema [(''head'', FDef ''person'' None (Some person))] True [] None"

definition household_parser :: "host \<Rightarrow> parser" where
  "household_parser h = DictParser [(''head_name'', JStr ''jeswin'')] default_options h"

text \<open>A nested person and a scalar beside it, with a flat key for each of the three values.\<close>

definition family :: eschema where
  "family = ESchema [(''head'', FDef ''person'' None (Some person)),
                     (''pet'', FDef ''string'' None None)] True [] None"

definition family_parser :: "host \<Rightarrow> parser" where
  "family_parser h =
     DictParser [(''head_name'', JStr ''jeswin''), (''head_age'', JStr ''33''),
                 (''pet'', JStr ''rex'')] default_options h"

section \<open>Properties\<close>

subsection \<open>Auxiliary facts\<close>

lemmas model_defs =
  DictParser_def default_options_def dict_getter_def lookup_def
  setField.simps setArray.simps setArray_csv_def isPrimitiveType_def setSimpleType_def
  getField_def parseSimpleType_def set_prop_def loop_turn_def attach_custom_def dp_map_def
  set_element_def element_def

lemma whitelist_indexOf_never [simp]: "whitelist_indexOf whitelist k = - 1"
proof -
  have "List.find (\<lambda>i. False) xs = None" for xs :: "nat list"
    by (induction xs) simp_all
  then show ?thesis
    by (simp add: whitelist_indexOf_def entry_strict_equals_def)
qed

lemma lookup_truthy: "is_truthy (lookup ps name) \<Longrightarrow> map_of ps name = Some (lookup ps name)"
  by (auto simp: lookup_def split: option.splits)

lemma put_prop_same:
  "get_prop obj k = Inr cur \<Longrightarrow> is_truthy cur \<Longrightarrow> put_prop obj k cur = obj"
  by (cases obj)
     (auto simp: element_def set_element_def lookup_truthy AList.update_triv
           split: option.splits if_splits)

subsection \<open>An empty whitelist\<close>

text \<open>
  With no whitelist entry left, no function of the pass fetches a value, writes to its
  target or reports a change.  The statement for \<open>array_loop\<close> assumes what \<open>setArray\<close>
  establishes: when \<open>newArray\<close> is attached, it is the value the field already holds.
\<close>

lemma empty_whitelist_aux:
  "whitelist = [] \<longrightarrow>
     snd (setField n p obj fieldName def entitySchema whitelist options parents seen) = (obj, seen)
     \<and> fst (setField n p obj fieldName def entitySchema whitelist options parents seen)
         \<noteq> Returned True"
  "whitelist = [] \<longrightarrow>
     snd (setArray n p obj fieldName def entitySchema whitelist options parents seen) = (obj, seen)
     \<and> fst (setArray n p obj fieldName def entitySchema whitelist options parents seen)
         \<noteq> Returned True"
  "whitelist = [] \<longrightarrow> (attached \<longrightarrow> put_prop obj fieldName newArray = obj) \<longrightarrow>
     snd (array_loop n p obj fieldName def whitelist options parents counter newArray attached
            changed seen) = (obj, seen)
     \<and> (fst (array_loop n p obj fieldName def whitelist options parents counter newArray attached
                changed seen) = Returned True \<longrightarrow> changed)"
  "whitelist = [] \<longrightarrow>
     snd (setCustomType n p obj fieldName def entitySchema whitelist options parents seen)
       = (obj, seen)
     \<and> fst (setCustomType n p obj fieldName def entitySchema whitelist options parents seen)
         \<noteq> Returned True"
  "whitelist = [] \<longrightarrow>
     snd (map_impl n p target es whitelist options parents seen) = (target, seen)
     \<and> fst (map_impl n p target es whitelist options parents seen) \<noteq> Returned True"
  "whitelist = [] \<longrightarrow>
     snd (map_fields n p target es props whitelist options parents changed seen) = (target, seen)
     \<and> (fst (map_fields n p target es props whitelist options parents changed seen)
           = Returned True \<longrightarrow> changed)"
proof (induction n p obj fieldName "def" entitySchema whitelist options parents seen
         and n p obj fieldName "def" entitySchema whitelist options parents seen
         and n p obj fieldName "def" whitelist options parents counter newArray attached changed seen
         and n p obj fieldName "def" entitySchema whitelist options parents seen
         and n p target es whitelist options parents seen
         and n p target es props whitelist options parents changed seen
       rule: setField_setArray_array_loop_setCustomType_map_impl_map_fields.induct)
  case (1 n p obj fieldName "def" entitySchema whitelist options parents seen)
  then show ?case by (simp add: setField.simps)
next
  case (2 n p obj fieldName "def" entitySchema whitelist options parents seen)
  show ?case
  proof (cases "mapping_has entitySchema fieldName")
    case True
    then show ?thesis
      by (simp add: setArray.simps setArray_csv_def split: option.splits)
  next
    case False
    show ?thesis
    proof (cases "get_prop obj fieldName")
      case (Inl e)
      with False show ?thesis by (simp add: setArray.simps)
    next
      case (Inr cur)
      with False 2 show ?thesis
        by (simp add: setArray.simps put_prop_same)
    qed
  qed
next
  case (3 p obj fieldName "def" whitelist options parents counter newArray attached changed seen)
  then show ?case by simp
next
  case (4 n p obj fieldName t es whitelist options parents counter newArray attached changed seen)
  then show ?case by simp
next
  case (5 n p obj fieldName t it es whitelist options parents counter newArray attached changed seen)
  show ?case
  proof (intro impI)
    assume wl: "whitelist = []" and att: "attached \<longrightarrow> put_prop obj fieldName newArray = obj"
    obtain r na s where call:
      "setField n p newArray (KNum counter) it (Items (FDef t (Some it) es)) whitelist options
         parents seen = (r, na, s)"
      by (cases "setField n p newArray (KNum counter) it (Items (FDef t (Some it) es)) whitelist
                   options parents seen") auto
    from 5(1) wl call have "na = newArray" "s = seen" "r \<noteq> Returned True" by auto
    with att call show
      "snd (array_loop (Suc n) p obj fieldName (FDef t (Some it) es) whitelist options parents
              counter newArray attached changed seen) = (obj, seen)
       \<and> (fst (array_loop (Suc n) p obj fieldName (FDef t (Some it) es) whitelist options parents
                  counter newArray attached changed seen) = Returned True \<longrightarrow> changed)"
      by (cases r) (auto simp: loop_turn_def)
  qed
next
  case (6 n p obj fieldName t its entitySchema whitelist options parents seen)
  then show ?case by simp
next
  case (7 n p obj fieldName t its es entitySchema whitelist options parents seen)
  show ?case
  proof (intro impI)
    assume wl: "whitelist = []"
    obtain r no s where call:
      "map_impl n p (JObj []) es (map (drop 1) whitelist) options (parents @ [fieldName]) seen
         = (r, no, s)"
      by (cases "map_impl n p (JObj []) es (map (drop 1) whitelist) options
                   (parents @ [fieldName]) seen") auto
    show
      "snd (setCustomType n p obj fieldName (FDef t its (Some es)) entitySchema whitelist options
              parents seen) = (obj, seen)
       \<and> fst (setCustomType n p obj fieldName (FDef t its (Some es)) entitySchema whitelist
                options parents seen) \<noteq> Returned True"
    proof (cases "es_ctor es")
      case True
      with 7 wl call have "s = seen" "r \<noteq> Returned True" by auto
      with True call show ?thesis by (cases r) (auto simp: attach_custom_def)
    next
      case False
      then show ?thesis by simp
    qed
  qed
next
  case (8 n p target props c m h whitelist options parents seen)
  then show ?case by simp
next
  case (9 n p target es whitelist options parents changed seen)
  then show ?case by simp
next
  case (10 n p target es fieldName "def" rest whitelist options parents changed seen)
  show ?case
  proof (intro impI)
    assume wl: "whitelist = []"
    obtain r t' s where call:
      "setField n p target (KStr fieldName) def (Schema es)
         (filter (\<lambda>e. first_segment_is e (KStr fieldName)) whitelist) options parents seen
         = (r, t', s)"
      by (cases "setField n p target (KStr fieldName) def (Schema es)
                   (filter (\<lambda>e. first_segment_is e (KStr fieldName)) whitelist) options parents
                   seen") auto
    from 10(1) wl call have *: "t' = target" "s = seen" "r \<noteq> Returned True" by auto
    show
      "snd (map_fields n p target es ((fieldName, def) # rest) whitelist options parents changed
              seen) = (target, seen)
       \<and> (fst (map_fields n p target es ((fieldName, def) # rest) whitelist options parents
                  changed seen) = Returned True \<longrightarrow> changed)"
    proof (cases r)
      case (Returned b)
      with * have "b = False" by simp
      with 10(2)[OF call[symmetric] refl Returned] wl * call Returned show ?thesis by auto
    next
      case (Threw e)
      with * call show ?thesis by simp
    next
      case Diverged
      with * call show ?thesis by simp
    qed
  qed
qed

lemma setField_empty_whitelist:
  "setField n p obj fieldName def entitySchema [] options parents seen = (r, obj', seen')
     \<Longrightarrow> obj' = obj \<and> seen' = seen \<and> r \<noteq> Returned True"
  using empty_whitelist_aux(1)[of "[]" n p obj fieldName "def" entitySchema options parents seen]
  by simp

lemma map_impl_empty_whitelist:
  "map_impl n p target es [] options parents seen = (r, target', seen')
     \<Longrightarrow> target' = target \<and> seen' = seen \<and> r \<noteq> Returned True"
  using empty_whitelist_aux(5)[of "[]" n p target es options parents seen]
  by simp

text \<open>
  \<open>map\<close> reaches the pass only with an empty whitelist, so a call of \<open>map\<close> leaves its
  target and the list of fetched keys as they were.
\<close>

lemma map_leaves_target:
  "snd (dp_map n p target es whitelist options parents seen) = (target, seen)"
proof (cases whitelist)
  case Nil
  obtain r t s where call:
    "map_impl n p target es []
       (case options of None \<Rightarrow> \<lparr> overwrite = True \<rparr> | Some opts \<Rightarrow> opts)
       (case parents of None \<Rightarrow> [] | Some ps \<Rightarrow> ps) seen = (r, t, s)"
    using prod_cases3 by blast
  from map_impl_empty_whitelist[OF call] call Nil show ?thesis
    by (simp add: dp_map_def)
next
  case (Cons e es')
  then show ?thesis by (simp add: dp_map_def)
qed

subsection \<open>The loop budget\<close>

text \<open>
  The first argument only bounds the loops: once a call comes back with it, returning
  or throwing, every larger budget gives the very same result.
\<close>

lemma loop_turn_Diverged:
  "loop_turn Diverged obj k na attached changed
     = Inl (Diverged, if attached then put_prop obj k na else obj)"
  by (simp add: loop_turn_def)

lemma attach_custom_Diverged:
  "fst (attach_custom obj k (r, newObj, s)) \<noteq> Diverged \<Longrightarrow> r \<noteq> Diverged"
  by (auto simp: attach_custom_def)

lemma budget_mono_aux:
  "fst (setField n p obj fieldName def entitySchema whitelist options parents seen) \<noteq> Diverged
     \<longrightarrow> (\<forall>m\<ge>n. setField m p obj fieldName def entitySchema whitelist options parents seen
                  = setField n p obj fieldName def entitySchema whitelist options parents seen)"
  "fst (setArray n p obj fieldName def entitySchema whitelist options parents seen) \<noteq> Diverged
     \<longrightarrow> (\<forall>m\<ge>n. setArray m p obj fieldName def entitySchema whitelist options parents seen
                  = setArray n p obj fieldName def entitySchema whitelist options parents seen)"
  "fst (array_loop n p obj fieldName def whitelist options parents counter newArray attached
          changed seen) \<noteq> Diverged
     \<longrightarrow> (\<forall>m\<ge>n. array_loop m p obj fieldName def whitelist options parents counter newArray
                    attached changed seen
                  = array_loop n p obj fieldName def whitelist options parents counter newArray
                      attached changed seen)"
  "fst (setCustomType n p obj fieldName def entitySchema whitelist options parents seen) \<noteq> Diverged
     \<longrightarrow> (\<forall>m\<ge>n. setCustomType m p obj fieldName def entitySchema whitelist options parents seen
                  = setCustomType n p obj fieldName def entitySchema whitelist options parents seen)"
  "fst (map_impl n p target es whitelist options parents seen) \<noteq> Diverged
     \<longrightarrow> (\<forall>m\<ge>n. map_impl m p target es whitelist options parents seen
                  = map_impl n p target es whitelist options parents seen)"
  "fst (map_fields n p target es props whitelist options parents changed seen) \<noteq> Diverged
     \<longrightarrow> (\<forall>m\<ge>n. map_fields m p target es props whitelist options parents changed seen
                  = map_fields n p target es props whitelist options parents changed seen)"
proof (induction n p obj fieldName "def" entitySchema whitelist options parents seen
         and n p obj fieldName "def" entitySchema whitelist options parents seen
         and n p obj fieldName "def" whitelist options parents counter newArray attached changed seen
         and n p obj fieldName "def" entitySchema whitelist options parents seen
         and n p target es whitelist options parents seen
         and n p target es props whitelist options parents changed seen
       rule: setField_setArray_array_loop_setCustomType_map_impl_map_fields.induct)
  case (1 n p obj fieldName "def" entitySchema whitelist options parents seen)
  show ?case
  proof (intro impI allI)
    fix m
    assume nd: "fst (setField n p obj fieldName def entitySchema whitelist options parents seen)
                  \<noteq> Diverged"
      and le: "n \<le> m"
    note arr = 1(1)[rule_format, of m]
    note cus = 1(2)[rule_format, of m]
    from nd le arr cus show
      "setField m p obj fieldName def entitySchema whitelist options parents seen
       = setField n p obj fieldName def entitySchema whitelist options parents seen"
      by (cases "isPrimitiveType (def_type def)"; cases "def_type def = ''array''")
         (simp_all add: setField.simps)
  qed
next
  case (2 n p obj fieldName "def" entitySchema whitelist options parents seen)
  show ?case
  proof (intro impI allI)
    fix m
    assume nd: "fst (setArray n p obj fieldName def entitySchema whitelist options parents seen)
                  \<noteq> Diverged"
      and le: "n \<le> m"
    show "setArray m p obj fieldName def entitySchema whitelist options parents seen
          = setArray n p obj fieldName def entitySchema whitelist options parents seen"
    proof (cases "mapping_has entitySchema fieldName")
      case True
      then show ?thesis by (simp add: setArray.simps)
    next
      case False
      show ?thesis
      proof (cases "get_prop obj fieldName")
        case (Inl e)
        with False show ?thesis by (simp add: setArray.simps)
      next
        case (Inr cur)
        with nd False have
          "fst (array_loop n p obj fieldName def whitelist options (parents @ [fieldName]) 1
                  (if is_truthy cur then cur else JArr [] []) (is_truthy cur) False seen)
             \<noteq> Diverged"
          by (simp add: setArray.simps)
        from 2[OF False Inr, rule_format, OF this le] False Inr show ?thesis
          by (simp add: setArray.simps)
      qed
    qed
  qed
next
  case (3 p obj fieldName "def" whitelist options parents counter newArray attached changed seen)
  then show ?case by simp
next
  case (4 n p obj fieldName t es whitelist options parents counter newArray attached changed seen)
  show ?case
  proof (intro impI allI)
    fix m assume "Suc n \<le> m"
    then obtain m' where "m = Suc m'" by (cases m) auto
    then show "array_loop m p obj fieldName (FDef t None es) whitelist options parents counter
                 newArray attached changed seen
               = array_loop (Suc n) p obj fieldName (FDef t None es) whitelist options parents
                   counter newArray attached changed seen"
      by simp
  qed
next
  case (5 n p obj fieldName t it es whitelist options parents counter newArray attached changed seen)
  let ?d = "FDef t (Some it) es"
  show ?case
  proof (intro impI allI)
    fix m
    assume nd: "fst (array_loop (Suc n) p obj fieldName ?d whitelist options parents counter
                       newArray attached changed seen) \<noteq> Diverged"
      and "Suc n \<le> m"
    then obtain m' where m: "m = Suc m'" and m': "n \<le> m'" by (cases m) auto
    obtain r na s where call:
      "setField n p newArray (KNum counter) it (Items ?d) whitelist options parents seen = (r, na, s)"
      by (cases "setField n p newArray (KNum counter) it (Items ?d) whitelist options parents seen")
         auto
    have r: "r \<noteq> Diverged"
    proof
      assume "r = Diverged"
      with call nd show False by (simp add: loop_turn_Diverged)
    qed
    with call have "fst (setField n p newArray (KNum counter) it (Items ?d) whitelist options
                           parents seen) \<noteq> Diverged" by simp
    from 5(1)[rule_format, OF this m'] call have call':
      "setField m' p newArray (KNum counter) it (Items ?d) whitelist options parents seen = (r, na, s)"
      by simp
    show "array_loop m p obj fieldName ?d whitelist options parents counter newArray attached
            changed seen
          = array_loop (Suc n) p obj fieldName ?d whitelist options parents counter newArray
              attached changed seen"
    proof (cases "loop_turn r obj fieldName na attached changed")
      case (Inl a)
      with call call' m show ?thesis by (cases a) simp
    next
      case (Inr b)
      obtain o2 att where b: "b = (o2, att)" by (cases b)
      from nd call Inr b have
        "fst (array_loop n p o2 fieldName ?d whitelist options parents (Suc counter) na att True s)
           \<noteq> Diverged" by simp
      from 5(2)[OF call[symmetric] refl Inr b[symmetric], rule_format, OF this m'] have
        "array_loop m' p o2 fieldName ?d whitelist options parents (Suc counter) na att True s
         = array_loop n p o2 fieldName ?d whitelist options parents (Suc counter) na att True s" .
      with call call' m Inr b show ?thesis by simp
    qed
  qed
next
  case (6 n p obj fieldName t its entitySchema whitelist options parents seen)
  then show ?case by simp
next
  case (7 n p obj fieldName t its es entitySchema whitelist options parents seen)
  show ?case
  proof (cases "es_ctor es")
    case True
    show ?thesis
    proof (intro impI allI)
      fix m
      assume nd: "fst (setCustomType n p obj fieldName (FDef t its (Some es)) entitySchema
                         whitelist options parents seen) \<noteq> Diverged"
        and le: "n \<le> m"
      obtain r no s where call:
        "map_impl n p (JObj []) es (map (drop 1) whitelist) options (parents @ [fieldName]) seen
           = (r, no, s)"
        by (cases "map_impl n p (JObj []) es (map (drop 1) whitelist) options
                     (parents @ [fieldName]) seen") auto
      from nd True call have "r \<noteq> Diverged"
        using attach_custom_Diverged[of obj fieldName r no s] by simp
      with call have "fst (map_impl n p (JObj []) es (map (drop 1) whitelist) options
                             (parents @ [fieldName]) seen) \<noteq> Diverged" by simp
      from 7[OF True, rule_format, OF this le] call have
        "map_impl m p (JObj []) es (map (drop 1) whitelist) options (parents @ [fieldName]) seen
           = (r, no, s)" by simp
      with call True show
        "setCustomType m p obj fieldName (FDef t its (Some es)) entitySchema whitelist options
           parents seen
         = setCustomType n p obj fieldName (FDef t its (Some es)) entitySchema whitelist options
             parents seen"
        by simp
    qed
  next
    case False
    then show ?thesis by simp
  qed
next
  case (8 n p target props c m h whitelist options parents seen)
  show ?case
  proof (intro impI allI)
    fix k
    assume "fst (map_impl n p target (ESchema props c m h) whitelist options parents seen)
              \<noteq> Diverged" and "n \<le> k"
    with 8[rule_format, of k] show
      "map_impl k p target (ESchema props c m h) whitelist options parents seen
       = map_impl n p target (ESchema props c m h) whitelist options parents seen"
      by simp
  qed
next
  case (9 n p target es whitelist options parents changed seen)
  then show ?case by simp
next
  case (10 n p target es fieldName "def" rest whitelist options parents changed seen)
  show ?case
  proof (intro impI allI)
    fix m
    assume nd: "fst (map_fields n p target es ((fieldName, def) # rest) whitelist options parents
                       changed seen) \<noteq> Diverged"
      and le: "n \<le> m"
    obtain r t' s where call:
      "setField n p target (KStr fieldName) def (Schema es)
         (filter (\<lambda>e. first_segment_is e (KStr fieldName)) whitelist) options parents seen
         = (r, t', s)"
      by (cases "setField n p target (KStr fieldName) def (Schema es)
                   (filter (\<lambda>e. first_segment_is e (KStr fieldName)) whitelist) options parents
                   seen") auto
    from nd call have r: "r \<noteq> Diverged" by (cases r) auto
    with call have "fst (setField n p target (KStr fieldName) def (Schema es)
         (filter (\<lambda>e. first_segment_is e (KStr fieldName)) whitelist) options parents seen)
         \<noteq> Diverged" by simp
    from 10(1)[rule_format, OF this le] call have call':
      "setField m p target (KStr fieldName) def (Schema es)
         (filter (\<lambda>e. first_segment_is e (KStr fieldName)) whitelist) options parents seen
         = (r, t', s)" by simp
    show "map_fields m p target es ((fieldName, def) # rest) whitelist options parents changed seen
          = map_fields n p target es ((fieldName, def) # rest) whitelist options parents changed
              seen"
    proof (cases r)
      case (Returned b)
      with nd call have
        "fst (map_fields n p t' es rest whitelist options parents (changed \<or> b) s) \<noteq> Diverged"
        by simp
      from 10(2)[OF call[symmetric] refl Returned, rule_format, OF this le] have
        "map_fields m p t' es rest whitelist options parents (changed \<or> b) s
         = map_fields n p t' es rest whitelist options parents (changed \<or> b) s" .
      with call call' Returned show ?thesis by simp
    next
      case (Threw e)
      with call call' show ?thesis by simp
    next
      case Diverged
      with r show ?thesis by simp
    qed
  qed
qed

lemma map_impl_budget:
  assumes "map_impl n p target es whitelist options parents seen = (r, target', seen')"
    and "r \<noteq> Diverged"
  shows "map_impl (n + k) p target es whitelist options parents seen = (r, target', seen')"
  using budget_mono_aux(5)[rule_format, of n p target es whitelist options parents seen "n + k"] assms by simp

subsection \<open>The entry point\<close>

text \<open>
  C1.  Whatever the arguments, a call of \<open>map\<close> with a non-empty whitelist throws a
  TypeError, and at that point no flat key has been fetched and the target is as it was:
  the callback that splits the whitelist entries reads \<open>this.options\<close> without a
  receiver.  The pass itself is reached only with an empty whitelist, and then it
  fetches nothing, writes nothing and does not report a change.
\<close>

theorem map_throws_unless_whitelist_empty:
  "(whitelist \<noteq> [] \<longrightarrow>
      dp_map n p target entitySchema whitelist options parents seen
        = (Threw TypeError, target, seen))
   \<and> (whitelist = [] \<longrightarrow>
        snd (dp_map n p target entitySchema whitelist options parents seen) = (target, seen)
        \<and> fst (dp_map n p target entitySchema whitelist options parents seen) \<noteq> Returned True)"
proof (cases whitelist)
  case Nil
  obtain r t s where call:
    "map_impl n p target entitySchema []
       (case options of None \<Rightarrow> \<lparr> overwrite = True \<rparr> | Some opts \<Rightarrow> opts)
       (case parents of None \<Rightarrow> [] | Some ps \<Rightarrow> ps) seen = (r, t, s)"
    by (cases "map_impl n p target entitySchema []
                 (case options of None \<Rightarrow> \<lparr> overwrite = True \<rparr> | Some opts \<Rightarrow> opts)
                 (case parents of None \<Rightarrow> [] | Some ps \<Rightarrow> ps) seen") auto
  from map_impl_empty_whitelist[OF call] call Nil show ?thesis
    by (simp add: dp_map_def)
next
  case (Cons e es)
  then show ?thesis by (simp add: dp_map_def)
qed

theorem map_throws_unless_whitelist_empty_witness:
  "[''customers_name''] \<noteq> []
   \<and> dp_map 5 (customers_parser sample_host) (JObj []) customers [''customers_name'']
        None None [] = (Threw TypeError, JObj [], [])"
  using map_throws_unless_whitelist_empty
          [of "[''customers_name'']" 5 "customers_parser sample_host" "JObj []" customers
              None None "[]"]
  by simp

text \<open>
  C2.  The scenario of the specification, run through \<open>map\<close> with the whitelist
  \<open>["name", "age"]\<close> and default options, on an empty object: the call does not return;
  it throws a TypeError and leaves the target empty.
\<close>

theorem map_person_scenario_throws:
  "dp_map n (person_parser h) (JObj []) person [''name'', ''age''] None None []
     = (Threw TypeError, JObj [], [])"
  by (simp add: dp_map_def)

text \<open>
  The pass itself, given the whitelist already split, does build the expected target,
  for a host that leaves the two strings unescaped and reads \<open>"33"\<close> as 33.
\<close>

lemma map_impl_person_scenario:
  assumes "escape h (JStr ''jeswin'') = ''jeswin''" and "escape h (JStr ''33'') = ''33''"
    and "parseInt h (JStr ''33'') = Fin 33"
  shows "map_impl n (person_parser h) (JObj []) person [[''name''], [''age'']]
           \<lparr> overwrite = True \<rparr> [] []
         = (Returned True, JObj [(''name'', JStr ''jeswin''), (''age'', JNum (Fin 33))],
            [''name'', ''age''])"
  using assms
  by (simp add: person_def person_parser_def DictParser_def default_options_def
        dict_getter_def lookup_def setField.simps isPrimitiveType_def setSimpleType_def
        getField_def parseSimpleType_def set_prop_def)

subsection \<open>Writes to a keyed target stay in the field\<close>

text \<open>
  On a plain object, a call of \<open>setField\<close> for one field leaves an object, and every
  property under another name is as it was.
\<close>

lemma setSimpleType_keyed:
  assumes "setSimpleType p (JObj ps) k d encl wl opts parents seen = (r, obj', seen')"
  shows "\<exists>ps'. obj' = JObj ps' \<and> (\<forall>name. name \<noteq> key_name k \<longrightarrow> map_of ps' name = map_of ps name)"
  using assms
  by (auto simp: setSimpleType_def set_prop_def update_conv'
           split: prod.splits sum.splits if_splits)

lemma loop_turn_keyed:
  "loop_turn r (JObj ps) k na attached changed = Inl (res, obj') \<Longrightarrow>
     \<exists>ps'. obj' = JObj ps' \<and> (\<forall>name. name \<noteq> key_name k \<longrightarrow> map_of ps' name = map_of ps name)"
  "loop_turn r (JObj ps) k na attached changed = Inr (obj', a) \<Longrightarrow>
     \<exists>ps'. obj' = JObj ps' \<and> (\<forall>name. name \<noteq> key_name k \<longrightarrow> map_of ps' name = map_of ps name)"
  by (auto simp: loop_turn_def set_prop_def update_conv' Let_def
           split: outcome.splits sum.splits if_splits)

lemma array_loop_keyed:
  "array_loop n p (JObj ps) k d wl opts parents counter newArray attached changed seen
     = (r, obj', seen') \<Longrightarrow>
   \<exists>ps'. obj' = JObj ps' \<and> (\<forall>name. name \<noteq> key_name k \<longrightarrow> map_of ps' name = map_of ps name)"
proof (induction n arbitrary: ps counter newArray attached changed seen)
  case 0
  then show ?case by auto
next
  case (Suc n)
  obtain t its es where d: "d = FDef t its es" by (cases d)
  show ?case
  proof (cases its)
    case None
    with Suc.prems d show ?thesis by auto
  next
    case (Some it)
    obtain r1 na s1 where call:
      "setField n p newArray (KNum counter) it (Items (FDef t (Some it) es)) wl opts parents seen
         = (r1, na, s1)"
      by (cases "setField n p newArray (KNum counter) it (Items (FDef t (Some it) es)) wl opts
                   parents seen") auto
    show ?thesis
    proof (cases "loop_turn r1 (JObj ps) k na attached changed")
      case (Inl a)
      obtain res o1 where a: "a = (res, o1)" by (cases a)
      from Suc.prems d Some call Inl a have "obj' = o1" by simp
      with loop_turn_keyed(1)[OF Inl[unfolded a]] show ?thesis by simp
    next
      case (Inr b)
      obtain o2 att where b: "b = (o2, att)" by (cases b)
      from loop_turn_keyed(2)[OF Inr[unfolded b]] obtain ps2 where
        o2: "o2 = JObj ps2" and fr: "\<forall>name. name \<noteq> key_name k \<longrightarrow> map_of ps2 name = map_of ps name"
        by blast
      from Suc.prems d Some call Inr b o2 have
        "array_loop n p (JObj ps2) k d wl opts parents (Suc counter) na att True s1 = (r, obj', seen')"
        by simp
      from Suc.IH[OF this] fr show ?thesis by auto
    qed
  qed
qed

lemma attach_custom_keyed:
  "attach_custom (JObj ps) k res = (r, obj', seen') \<Longrightarrow>
   \<exists>ps'. obj' = JObj ps' \<and> (\<forall>name. name \<noteq> key_name k \<longrightarrow> map_of ps' name = map_of ps name)"
  by (auto simp: attach_custom_def set_prop_def update_conv'
           split: prod.splits outcome.splits sum.splits if_splits)

lemma setField_keyed:
  assumes "setField n p (JObj ps) k d encl wl opts parents seen = (r, obj', seen')"
  shows "\<exists>ps'. obj' = JObj ps' \<and> (\<forall>name. name \<noteq> key_name k \<longrightarrow> map_of ps' name = map_of ps name)"
proof (cases "isPrimitiveType (def_type d)")
  case True
  show ?thesis
  proof (cases "def_type d = ''array''")
    case False
    with True assms setSimpleType_keyed show ?thesis
      by (auto simp: setField.simps split: if_splits)
  next
    case arr: True
    show ?thesis
    proof (cases "mapping_has encl k")
      case True
      with arr assms \<open>isPrimitiveType (def_type d)\<close> show ?thesis
        by (auto simp: setField.simps setArray.simps setArray_csv_def
                 split: option.splits if_splits prod.splits sum.splits)
    next
      case False
      with arr assms \<open>isPrimitiveType (def_type d)\<close> array_loop_keyed show ?thesis
        by (auto simp: setField.simps setArray.simps)
    qed
  qed
next
  case False
  obtain t its eso where d: "d = FDef t its eso" by (cases d)
  show ?thesis
  proof (cases eso)
    case None
    with False assms d show ?thesis by (auto simp: setField.simps)
  next
    case (Some es)
    with False assms d attach_custom_keyed show ?thesis
      by (auto simp: setField.simps split: if_splits)
  qed
qed

subsection \<open>Paths written by a pass\<close>

text \<open>
  A path is listed exactly when it is an initial part of a whitelist entry.
\<close>

lemma listed_iff_prefix:
  "listed whitelist path \<longleftrightarrow> (\<exists>e \<in> set whitelist. prefix path e)"
proof (induction path arbitrary: whitelist)
  case Nil
  then show ?case by (cases whitelist) (auto simp: listed_def)
next
  case (Cons g q)
  have "listed whitelist (g # q)
        \<longleftrightarrow> listed (map (drop 1) (filter (\<lambda>e. first_segment_is e (KStr g)) whitelist)) q"
    by (simp add: listed_def)
  also have "\<dots> \<longleftrightarrow> (\<exists>e \<in> set whitelist. first_segment_is e (KStr g) \<and> prefix q (drop 1 e))"
    unfolding Cons.IH by auto
  also have "\<dots> \<longleftrightarrow> (\<exists>e \<in> set whitelist. prefix (g # q) e)"
  proof -
    have "first_segment_is e (KStr g) \<and> prefix q (drop 1 e) \<longleftrightarrow> prefix (g # q) e" for e
      by (cases e) auto
    then show ?thesis by simp
  qed
  finally show ?case .
qed

text \<open>
  What the single writes add to the paths of their target.
\<close>

lemma paths_update:
  "paths (JObj (AList.update g v ps)) \<subseteq> paths (JObj ps) \<union> insert [g] ((#) g ` paths v)"
  by (induction ps) (auto simp: paths.simps)

lemma parse_scalar_paths:
  "parseSimpleType h val k d e = Inr v \<Longrightarrow> paths v = {}"
  by (auto simp: parseSimpleType_def paths.simps split: if_splits)

lemma lookup_update_same: "lookup (AList.update g v ps) g = v"
  by (simp add: lookup_def update_conv')

lemma paths_set_element:
  "paths (JArr (set_element xs c v) qs) \<subseteq> paths (JArr xs qs) \<union> paths v"
proof -
  have "set (set_element xs c v) \<subseteq> insert v (insert JUndefined (set xs))"
    using set_update_subset_insert[of xs c v] by (auto simp: set_element_def)
  then show ?thesis by (fastforce simp: paths.simps)
qed

lemma paths_empty_object: "paths (JObj []) = {}"
  by (simp add: paths.simps)

lemma paths_empty_array: "paths (JArr [] []) = {}"
  by (simp add: paths.simps)

lemma paths_appended:
  "paths (JArr (xs @ [v]) qs) = paths (JArr xs qs) \<union> paths v"
  by (auto simp: paths.simps)

lemma listed_head:
  "e \<in> set whitelist \<Longrightarrow> first_segment_is e (KStr g) \<Longrightarrow> listed whitelist [g]"
  by (auto simp: listed_def filter_empty_conv)

lemma listed_descend:
  "listed (map (drop 1) (filter (\<lambda>e. first_segment_is e (KStr g)) whitelist)) q
     \<Longrightarrow> listed whitelist (g # q)"
  by (simp add: listed_def)

lemma length_set_element:
  "length xs \<le> Suc c \<Longrightarrow> length (set_element xs c v) = Suc c"
  by (auto simp: set_element_def)

lemma setSimpleType_obj_shape:
  "\<exists>v. paths v = {}
     \<and> (fst (snd (setSimpleType p (JObj ps) k d encl wl opts parents seen)) = JObj ps
        \<or> fst (snd (setSimpleType p (JObj ps) k d encl wl opts parents seen))
            = JObj (AList.update (key_name k) v ps))"
proof -
  have kept: "AList.update (key_name k) (lookup ps (key_name k)) ps = ps"
    if "is_truthy (lookup ps (key_name k))"
    using lookup_truthy[OF that] by (rule update_triv)
  have none: "paths JUndefined = {}" by (simp add: paths.simps)
  obtain gr s1 where get:
    "getField p (join (delimiter p) (map key_name (parents @ [k]))) DefAbsent seen = (gr, s1)"
    by (cases "getField p (join (delimiter p) (map key_name (parents @ [k]))) DefAbsent seen")
  show ?thesis
  proof (cases gr)
    case (Inl e)
    with get have "fst (snd (setSimpleType p (JObj ps) k d encl wl opts parents seen)) = JObj ps"
      by (simp add: setSimpleType_def)
    with none show ?thesis by blast
  next
    case (Inr val)
    show ?thesis
    proof (cases "parseSimpleType (lib p) val k d (Some encl)")
      case (Inl e)
      with get Inr have
        "fst (snd (setSimpleType p (JObj ps) k d encl wl opts parents seen)) = JObj ps"
        by (simp add: setSimpleType_def)
      with none show ?thesis by blast
    next
      case res: (Inr result)
      then have empty: "paths result = {}" by (rule parse_scalar_paths)
      from get Inr res kept have
        "fst (snd (setSimpleType p (JObj ps) k d encl wl opts parents seen)) = JObj ps
         \<or> fst (snd (setSimpleType p (JObj ps) k d encl wl opts parents seen))
            = JObj (AList.update (key_name k) result ps)"
        by (auto simp: setSimpleType_def set_prop_def)
      with empty show ?thesis by blast
    qed
  qed
qed

lemma setSimpleType_obj_paths:
  "paths (fst (snd (setSimpleType p (JObj ps) k d encl wl opts parents seen)))
     \<subseteq> paths (JObj ps) \<union> {[key_name k]}"
proof -
  from setSimpleType_obj_shape[of p ps k d encl wl opts parents seen]
  obtain v where v: "paths v = {}"
    and shape: "fst (snd (setSimpleType p (JObj ps) k d encl wl opts parents seen)) = JObj ps
       \<or> fst (snd (setSimpleType p (JObj ps) k d encl wl opts parents seen))
           = JObj (AList.update (key_name k) v ps)"
    by blast
  from paths_update[of "key_name k" v ps] v have
    "paths (JObj (AList.update (key_name k) v ps)) \<subseteq> paths (JObj ps) \<union> {[key_name k]}"
    by simp
  with shape show ?thesis by (elim disjE) auto
qed

lemma setArray_csv_target:
  "fst (snd (setArray_csv p obj k d wl parents seen)) = obj"
  by (simp add: setArray_csv_def split: option.splits prod.splits sum.splits)

lemma attach_custom_obj_paths:
  "paths (fst (snd (attach_custom (JObj ps) k (r, newObj, s))))
     \<subseteq> paths (JObj ps) \<union> insert [key_name k] ((#) (key_name k) ` paths newObj)"
proof -
  have "fst (snd (attach_custom (JObj ps) k (r, newObj, s))) = JObj ps
        \<or> fst (snd (attach_custom (JObj ps) k (r, newObj, s)))
            = JObj (AList.update (key_name k) newObj ps)"
    by (auto simp: attach_custom_def set_prop_def split: outcome.splits)
  with paths_update[of "key_name k" newObj ps] show ?thesis
    by (elim disjE) auto
qed

lemma attach_custom_arr_paths:
  "\<exists>xs' qs'. fst (snd (attach_custom (JArr xs qs) k (r, newObj, s))) = JArr xs' qs'
     \<and> length xs' \<le> Suc (length xs)
     \<and> paths (JArr xs' qs') \<subseteq> paths (JArr xs qs) \<union> paths newObj"
proof -
  have "fst (snd (attach_custom (JArr xs qs) k (r, newObj, s))) = JArr xs qs
        \<or> fst (snd (attach_custom (JArr xs qs) k (r, newObj, s))) = JArr (xs @ [newObj]) qs"
    by (auto simp: attach_custom_def split: outcome.splits)
  then show ?thesis
  proof
    assume "fst (snd (attach_custom (JArr xs qs) k (r, newObj, s))) = JArr xs qs"
    then show ?thesis by auto
  next
    assume "fst (snd (attach_custom (JArr xs qs) k (r, newObj, s))) = JArr (xs @ [newObj]) qs"
    then show ?thesis by (simp add: paths_appended)
  qed
qed

lemma loop_turn_obj_paths:
  assumes "attached \<or> \<not> is_truthy (lookup ps (key_name k))" and "is_array na"
  shows "loop_turn r (JObj ps) k na attached changed = Inl (res, o1) \<Longrightarrow>
           paths o1 \<subseteq> paths (JObj ps) \<union> insert [key_name k] ((#) (key_name k) ` paths na)"
    and "loop_turn r (JObj ps) k na attached changed = Inr (o2, att) \<Longrightarrow>
           att \<and> (\<exists>ps2. o2 = JObj ps2)
           \<and> paths o2 \<subseteq> paths (JObj ps) \<union> insert [key_name k] ((#) (key_name k) ` paths na)"
proof -
  have tr: "is_truthy na" using assms(2) by (cases na) auto
  have one: "paths (JObj (AList.update (key_name k) na ps))
      \<subseteq> paths (JObj ps) \<union> insert [key_name k] ((#) (key_name k) ` paths na)"
    by (rule paths_update)
  have two: "AList.update (key_name k) na (AList.update (key_name k) na ps)
      = AList.update (key_name k) na ps"
    by (simp add: update_conv' update_triv)
  {
    assume "loop_turn r (JObj ps) k na attached changed = Inl (res, o1)"
    then have "o1 = JObj ps \<or> o1 = JObj (AList.update (key_name k) na ps)"
      by (cases attached)
         (auto simp: loop_turn_def set_prop_def Let_def split: outcome.splits if_splits)
    with one show
      "paths o1 \<subseteq> paths (JObj ps) \<union> insert [key_name k] ((#) (key_name k) ` paths na)"
      by (elim disjE) auto
  }
  {
    assume "loop_turn r (JObj ps) k na attached changed = Inr (o2, att)"
    with two tr assms(1) have "att \<and> o2 = JObj (AList.update (key_name k) na ps)"
      by (cases attached)
         (auto simp: loop_turn_def set_prop_def Let_def lookup_update_same
               split: outcome.splits if_splits)
    with one show "att \<and> (\<exists>ps2. o2 = JObj ps2)
           \<and> paths o2 \<subseteq> paths (JObj ps) \<union> insert [key_name k] ((#) (key_name k) ` paths na)"
      by simp
  }
qed

lemma loop_turn_arr_paths:
  assumes "length xs \<le> (if attached then Suc c else c)" and "is_array na"
  shows "loop_turn r (JArr xs qs) (KNum c) na attached changed = Inl (res, o1) \<Longrightarrow>
           (\<exists>xs1 qs1. o1 = JArr xs1 qs1 \<and> length xs1 \<le> Suc c)
           \<and> paths o1 \<subseteq> paths (JArr xs qs) \<union> paths na"
    and "loop_turn r (JArr xs qs) (KNum c) na attached changed = Inr (o2, att) \<Longrightarrow>
           att \<and> (\<exists>xs2 qs2. o2 = JArr xs2 qs2 \<and> length xs2 \<le> Suc c)
           \<and> paths o2 \<subseteq> paths (JArr xs qs) \<union> paths na"
proof -
  have tr: "is_truthy na" using assms(2) by (cases na) auto
  have len: "length (set_element xs c v) = Suc c" for v
    using assms(1) by (intro length_set_element) (auto split: if_splits)
  have len2: "length (set_element (set_element xs c v) c w) = Suc c" for v w
    using len[of v] by (intro length_set_element) simp
  have p1: "paths (JArr (set_element xs c na) qs) \<subseteq> paths (JArr xs qs) \<union> paths na"
    by (rule paths_set_element)
  have p2: "paths (JArr (set_element (set_element xs c na) c na) qs)
      \<subseteq> paths (JArr xs qs) \<union> paths na"
    using paths_set_element[of "set_element xs c na" c na qs] p1 by blast
  have el: "element (set_element xs c na) c = na"
    by (auto simp: element_def set_element_def nth_append)
  have un: "\<not> attached \<Longrightarrow> element xs c = JUndefined"
    using assms(1) by (simp add: element_def)
  {
    assume "loop_turn r (JArr xs qs) (KNum c) na attached changed = Inl (res, o1)"
    then have "(\<not> attached \<and> o1 = JArr xs qs) \<or> o1 = JArr (set_element xs c na) qs"
      by (cases attached)
         (auto simp: loop_turn_def set_prop_def Let_def split: outcome.splits if_splits)
    then show "(\<exists>xs1 qs1. o1 = JArr xs1 qs1 \<and> length xs1 \<le> Suc c)
           \<and> paths o1 \<subseteq> paths (JArr xs qs) \<union> paths na"
    proof
      assume "\<not> attached \<and> o1 = JArr xs qs"
      with assms(1) show ?thesis by auto
    next
      assume "o1 = JArr (set_element xs c na) qs"
      with len p1 show ?thesis by simp
    qed
  }
  {
    assume turn: "loop_turn r (JArr xs qs) (KNum c) na attached changed = Inr (o2, att)"
    show "att \<and> (\<exists>xs2 qs2. o2 = JArr xs2 qs2 \<and> length xs2 \<le> Suc c)
           \<and> paths o2 \<subseteq> paths (JArr xs qs) \<union> paths na"
    proof (cases attached)
      case True
      with turn tr el have "att" "o2 = JArr (set_element (set_element xs c na) c na) qs"
        by (auto simp: loop_turn_def set_prop_def Let_def split: outcome.splits if_splits)
      with len2 p2 show ?thesis by simp
    next
      case False
      with turn un have "att" "o2 = JArr (set_element xs c na) qs"
        by (auto simp: loop_turn_def set_prop_def Let_def split: outcome.splits if_splits)
      with len p1 show ?thesis by simp
    qed
  }
qed


text \<open>
  The functions of the pass, by mutual induction.  On an array reached with the index
  \<open>c\<close> and at most \<open>c\<close> elements, a call leaves an array of at most \<open>c + 1\<close> elements and
  adds only paths listed below the field; on a plain object it adds the field's own
  name and, under it, paths listed below the field.  For an array field the object must
  not hold a value yet, because \<open>setArray\<close> would take it up.
\<close>

lemma written_paths_aux:
  "distinct_fields def \<longrightarrow>
     (\<forall>xs qs c. obj = JArr xs qs \<longrightarrow> fieldName = KNum c \<longrightarrow> length xs \<le> c \<longrightarrow>
        (\<exists>xs' qs'. fst (snd (setField n p obj fieldName def entitySchema whitelist options
                                parents seen)) = JArr xs' qs' \<and> length xs' \<le> Suc c)
        \<and> paths (fst (snd (setField n p obj fieldName def entitySchema whitelist options
                              parents seen))) \<subseteq> paths obj \<union> Collect (listed (map (drop 1) whitelist)))
     \<and> (\<forall>ps. obj = JObj ps \<longrightarrow>
          (def_type def = ''array'' \<longrightarrow> \<not> is_truthy (lookup ps (key_name fieldName))) \<longrightarrow>
          paths (fst (snd (setField n p obj fieldName def entitySchema whitelist options
                             parents seen)))
            \<subseteq> paths obj \<union> insert [key_name fieldName]
                              ((#) (key_name fieldName) ` Collect (listed (map (drop 1) whitelist))))"
  "distinct_fields def \<longrightarrow>
     (\<forall>xs qs c. obj = JArr xs qs \<longrightarrow> fieldName = KNum c \<longrightarrow> length xs \<le> c \<longrightarrow>
        (\<exists>xs' qs'. fst (snd (setArray n p obj fieldName def entitySchema whitelist options
                                parents seen)) = JArr xs' qs' \<and> length xs' \<le> Suc c)
        \<and> paths (fst (snd (setArray n p obj fieldName def entitySchema whitelist options
                              parents seen))) \<subseteq> paths obj \<union> Collect (listed (map (drop 1) whitelist)))
     \<and> (\<forall>ps. obj = JObj ps \<longrightarrow> \<not> is_truthy (lookup ps (key_name fieldName)) \<longrightarrow>
          paths (fst (snd (setArray n p obj fieldName def entitySchema whitelist options
                             parents seen)))
            \<subseteq> paths obj \<union> insert [key_name fieldName]
                              ((#) (key_name fieldName) ` Collect (listed (map (drop 1) whitelist))))"
  "distinct_fields def \<longrightarrow>
     (\<forall>ys rs. newArray = JArr ys rs \<longrightarrow> length ys \<le> counter \<longrightarrow>
        paths newArray \<subseteq> Collect (listed (map (drop 1) whitelist)) \<longrightarrow>
        (\<forall>xs qs c. obj = JArr xs qs \<longrightarrow> fieldName = KNum c \<longrightarrow>
           length xs \<le> (if attached then Suc c else c) \<longrightarrow>
           (\<exists>xs' qs'. fst (snd (array_loop n p obj fieldName def whitelist options parents
                                   counter newArray attached changed seen)) = JArr xs' qs'
                       \<and> length xs' \<le> Suc c)
           \<and> paths (fst (snd (array_loop n p obj fieldName def whitelist options parents
                                 counter newArray attached changed seen)))
               \<subseteq> paths obj \<union> Collect (listed (map (drop 1) whitelist)))
        \<and> (\<forall>ps. obj = JObj ps \<longrightarrow>
             (attached \<or> \<not> is_truthy (lookup ps (key_name fieldName))) \<longrightarrow>
             paths (fst (snd (array_loop n p obj fieldName def whitelist options parents
                                counter newArray attached changed seen)))
               \<subseteq> paths obj \<union> insert [key_name fieldName]
                                 ((#) (key_name fieldName) ` Collect (listed (map (drop 1) whitelist)))))"
  "distinct_fields def \<longrightarrow>
     (\<forall>xs qs c. obj = JArr xs qs \<longrightarrow> fieldName = KNum c \<longrightarrow> length xs \<le> c \<longrightarrow>
        (\<exists>xs' qs'. fst (snd (setCustomType n p obj fieldName def entitySchema whitelist options
                                parents seen)) = JArr xs' qs' \<and> length xs' \<le> Suc c)
        \<and> paths (fst (snd (setCustomType n p obj fieldName def entitySchema whitelist options
                              parents seen))) \<subseteq> paths obj \<union> Collect (listed (map (drop 1) whitelist)))
     \<and> (\<forall>ps. obj = JObj ps \<longrightarrow>
          paths (fst (snd (setCustomType n p obj fieldName def entitySchema whitelist options
                             parents seen)))
            \<subseteq> paths obj \<union> insert [key_name fieldName]
                              ((#) (key_name fieldName) ` Collect (listed (map (drop 1) whitelist))))"
  "distinct_properties es \<longrightarrow>
     (\<forall>ps. target = JObj ps \<longrightarrow>
        (\<forall>name d. (name, d) \<in> set (es_properties es) \<longrightarrow> def_type d = ''array''
                    \<longrightarrow> \<not> is_truthy (lookup ps name)) \<longrightarrow>
        paths (fst (snd (map_impl n p target es whitelist options parents seen)))
          \<subseteq> paths target \<union> Collect (listed whitelist))"
  "distinct (map fst props) \<longrightarrow> list_all (\<lambda>(name, d). distinct_fields d) props \<longrightarrow>
     (\<forall>ps. target = JObj ps \<longrightarrow>
        (\<forall>name d. (name, d) \<in> set props \<longrightarrow> def_type d = ''array''
                    \<longrightarrow> \<not> is_truthy (lookup ps name)) \<longrightarrow>
        paths (fst (snd (map_fields n p target es props whitelist options parents changed seen)))
          \<subseteq> paths target \<union> Collect (listed whitelist))"
proof (induction n p obj fieldName "def" entitySchema whitelist options parents seen
         and n p obj fieldName "def" entitySchema whitelist options parents seen
         and n p obj fieldName "def" whitelist options parents counter newArray attached changed seen
         and n p obj fieldName "def" entitySchema whitelist options parents seen
         and n p target es whitelist options parents seen
         and n p target es props whitelist options parents changed seen
       rule: setField_setArray_array_loop_setCustomType_map_impl_map_fields.induct)
  case (1 n p obj fieldName "def" entitySchema whitelist options parents seen)
  let ?g = "key_name fieldName"
  let ?res = "fst (snd (setField n p obj fieldName def entitySchema whitelist options parents seen))"
  show ?case
  proof (cases "isPrimitiveType (def_type def)")
    case True
    show ?thesis
    proof (cases "def_type def = ''array''")
      case arr: True
      with True have eq: "setField n p obj fieldName def entitySchema whitelist options parents seen
          = setArray n p obj fieldName def entitySchema whitelist options parents seen"
        by (simp add: setField.simps)
      from arr have "\<not> def_type def \<noteq> ''array''" by simp
      from 1(1)[OF True this] arr show ?thesis unfolding eq by simp
    next
      case False
      show ?thesis
      proof (rule impI, rule conjI)
        show "\<forall>xs qs c. obj = JArr xs qs \<longrightarrow> fieldName = KNum c \<longrightarrow> length xs \<le> c \<longrightarrow>
            (\<exists>xs' qs'. ?res = JArr xs' qs' \<and> length xs' \<le> Suc c)
            \<and> paths ?res \<subseteq> paths obj \<union> Collect (listed (map (drop 1) whitelist))"
        proof (intro allI impI)
          fix xs qs c
          assume o: "obj = JArr xs qs" and k: "fieldName = KNum c" and len: "length xs \<le> c"
          from True False k have "?res = obj" by (simp add: setField.simps)
          with o len show "(\<exists>xs' qs'. ?res = JArr xs' qs' \<and> length xs' \<le> Suc c)
            \<and> paths ?res \<subseteq> paths obj \<union> Collect (listed (map (drop 1) whitelist))" by auto
        qed
        show "\<forall>ps. obj = JObj ps \<longrightarrow>
            (def_type def = ''array'' \<longrightarrow> \<not> is_truthy (lookup ps ?g)) \<longrightarrow>
            paths ?res \<subseteq> paths obj \<union> insert [?g] ((#) ?g ` Collect (listed (map (drop 1) whitelist)))"
        proof (intro allI impI)
          fix ps
          assume o: "obj = JObj ps"
          from True False have "?res = obj
            \<or> ?res = fst (snd (setSimpleType p obj fieldName def entitySchema whitelist options
                                 parents seen))"
            by (simp add: setField.simps)
          with setSimpleType_obj_paths[of p ps fieldName "def" entitySchema whitelist options
                 parents seen] o
          show "paths ?res \<subseteq> paths obj \<union> insert [?g] ((#) ?g ` Collect (listed (map (drop 1) whitelist)))"
            by (elim disjE) auto
        qed
      qed
    qed
  next
    case False
    then have eq: "setField n p obj fieldName def entitySchema whitelist options parents seen
        = setCustomType n p obj fieldName def entitySchema whitelist options parents seen"
      by (simp add: setField.simps)
    from 1(2)[OF False] show ?thesis unfolding eq by simp
  qed
next
  case (2 n p obj fieldName "def" entitySchema whitelist options parents seen)
  let ?g = "key_name fieldName"
  let ?res = "fst (snd (setArray n p obj fieldName def entitySchema whitelist options parents seen))"
  show ?case
  proof (cases "mapping_has entitySchema fieldName")
    case True
    then have "?res = obj" by (simp add: setArray.simps setArray_csv_target)
    then show ?thesis by auto
  next
    case False
    show ?thesis
    proof (rule impI, rule conjI)
      assume wf: "distinct_fields def"
      show "\<forall>xs qs c. obj = JArr xs qs \<longrightarrow> fieldName = KNum c \<longrightarrow> length xs \<le> c \<longrightarrow>
          (\<exists>xs' qs'. ?res = JArr xs' qs' \<and> length xs' \<le> Suc c)
          \<and> paths ?res \<subseteq> paths obj \<union> Collect (listed (map (drop 1) whitelist))"
      proof (intro allI impI)
        fix xs qs c
        assume o: "obj = JArr xs qs" and k: "fieldName = KNum c" and len: "length xs \<le> c"
        then have get: "get_prop obj fieldName = Inr JUndefined" by (simp add: element_def)
        have e: "paths (JArr [] []) \<subseteq> Collect (listed (map (drop 1) whitelist))" by (simp add: paths_empty_array)
        from False get have eq: "?res = fst (snd (array_loop n p obj fieldName def whitelist options
            (parents @ [fieldName]) 1 (JArr [] []) False False seen))"
          by (simp add: setArray.simps)
        from 2[OF False get] have IH: "distinct_fields def \<longrightarrow>
          (\<forall>ys rs. JArr [] [] = JArr ys rs \<longrightarrow> length ys \<le> 1 \<longrightarrow>
             paths (JArr [] []) \<subseteq> Collect (listed (map (drop 1) whitelist)) \<longrightarrow>
             (\<forall>xs qs c. obj = JArr xs qs \<longrightarrow> fieldName = KNum c \<longrightarrow>
                length xs \<le> (if False then Suc c else c) \<longrightarrow>
                (\<exists>xs' qs'. fst (snd (array_loop n p obj fieldName def whitelist options
                    (parents @ [fieldName]) 1 (JArr [] []) False False seen)) = JArr xs' qs'
                            \<and> length xs' \<le> Suc c)
                \<and> paths (fst (snd (array_loop n p obj fieldName def whitelist options
                    (parents @ [fieldName]) 1 (JArr [] []) False False seen)))
                    \<subseteq> paths obj \<union> Collect (listed (map (drop 1) whitelist)))
             \<and> (\<forall>ps. obj = JObj ps \<longrightarrow>
                  (False \<or> \<not> is_truthy (lookup ps (key_name fieldName))) \<longrightarrow>
                  paths (fst (snd (array_loop n p obj fieldName def whitelist options
                    (parents @ [fieldName]) 1 (JArr [] []) False False seen)))
                    \<subseteq> paths obj \<union> insert [key_name fieldName]
                                      ((#) (key_name fieldName) ` Collect (listed (map (drop 1) whitelist)))))"
          by simp
        have l0: "length ([] :: jsval list) \<le> 1" by simp
        from IH[rule_format, OF wf refl l0 e, THEN conjunct1, rule_format, OF o k] len
        show "(\<exists>xs' qs'. ?res = JArr xs' qs' \<and> length xs' \<le> Suc c)
          \<and> paths ?res \<subseteq> paths obj \<union> Collect (listed (map (drop 1) whitelist))"
          unfolding eq by simp
      qed
      assume wf: "distinct_fields def"
      show "\<forall>ps. obj = JObj ps \<longrightarrow> \<not> is_truthy (lookup ps ?g) \<longrightarrow>
          paths ?res \<subseteq> paths obj \<union> insert [?g] ((#) ?g ` Collect (listed (map (drop 1) whitelist)))"
      proof (intro allI impI)
        fix ps
        assume o: "obj = JObj ps" and unset: "\<not> is_truthy (lookup ps ?g)"
        then have get: "get_prop obj fieldName = Inr (lookup ps ?g)" by simp
        have e: "paths (JArr [] []) \<subseteq> Collect (listed (map (drop 1) whitelist))" by (simp add: paths_empty_array)
        from False get unset have eq: "?res = fst (snd (array_loop n p obj fieldName def whitelist
            options (parents @ [fieldName]) 1 (JArr [] []) False False seen))"
          by (simp add: setArray.simps)
        from unset have c2: "is_truthy (lookup ps ?g) = False" by simp
        note IH = 2[OF False get, unfolded c2 if_False]
        have l0: "length ([] :: jsval list) \<le> 1" by simp
        from unset have l1: "False \<or> \<not> is_truthy (lookup ps ?g)" by simp
        from IH[rule_format, OF wf refl l0 e, THEN conjunct2, rule_format, OF o l1]
        show "paths ?res \<subseteq> paths obj \<union> insert [?g] ((#) ?g ` Collect (listed (map (drop 1) whitelist)))"
          unfolding eq .
      qed
    qed
  qed
next
  case (3 p obj fieldName "def" whitelist options parents counter newArray attached changed seen)
  show ?case by (auto split: if_splits)
next
  case (4 n p obj fieldName t es whitelist options parents counter newArray attached changed seen)
  show ?case by (auto split: if_splits)
next
  case (5 n p obj fieldName t it es whitelist options parents counter newArray attached changed seen)
  let ?d = "FDef t (Some it) es"
  let ?g = "key_name fieldName"
  let ?res = "fst (snd (array_loop (Suc n) p obj fieldName ?d whitelist options parents counter
                          newArray attached changed seen))"
  show ?case
  proof (intro impI allI)
    fix ys rs
    assume wf: "distinct_fields ?d" and na: "newArray = JArr ys rs" and len: "length ys \<le> counter"
      and sub: "paths newArray \<subseteq> Collect (listed (map (drop 1) whitelist))"
    from wf have wf_it: "distinct_fields it" by simp
    obtain r na' s where call:
      "setField n p newArray (KNum counter) it (Items ?d) whitelist options parents seen
         = (r, na', s)"
      by (cases "setField n p newArray (KNum counter) it (Items ?d) whitelist options parents seen")
         auto
    from 5(1)[rule_format, OF wf_it, THEN conjunct1, rule_format, OF na refl len] call sub
    obtain ys' rs' where na': "na' = JArr ys' rs'" and len': "length ys' \<le> Suc counter"
      and sub': "paths na' \<subseteq> Collect (listed (map (drop 1) whitelist))"
      by auto
    have arr: "is_array na'" using na' by simp
    show "(\<forall>xs qs c. obj = JArr xs qs \<longrightarrow> fieldName = KNum c \<longrightarrow>
             length xs \<le> (if attached then Suc c else c) \<longrightarrow>
             (\<exists>xs' qs'. ?res = JArr xs' qs' \<and> length xs' \<le> Suc c)
             \<and> paths ?res \<subseteq> paths obj \<union> Collect (listed (map (drop 1) whitelist)))
        \<and> (\<forall>ps. obj = JObj ps \<longrightarrow> (attached \<or> \<not> is_truthy (lookup ps ?g)) \<longrightarrow>
             paths ?res \<subseteq> paths obj \<union> insert [?g] ((#) ?g ` Collect (listed (map (drop 1) whitelist))))"
    proof (rule conjI)
      show "\<forall>xs qs c. obj = JArr xs qs \<longrightarrow> fieldName = KNum c \<longrightarrow>
             length xs \<le> (if attached then Suc c else c) \<longrightarrow>
             (\<exists>xs' qs'. ?res = JArr xs' qs' \<and> length xs' \<le> Suc c)
             \<and> paths ?res \<subseteq> paths obj \<union> Collect (listed (map (drop 1) whitelist))"
      proof (intro allI impI)
        fix xs qs c
        assume o: "obj = JArr xs qs" and k: "fieldName = KNum c"
          and l: "length xs \<le> (if attached then Suc c else c)"
        show "(\<exists>xs' qs'. ?res = JArr xs' qs' \<and> length xs' \<le> Suc c)
             \<and> paths ?res \<subseteq> paths obj \<union> Collect (listed (map (drop 1) whitelist))"
        proof (cases "loop_turn r obj fieldName na' attached changed")
          case (Inl a)
          obtain res o1 where a: "a = (res, o1)" by (cases a)
          from call Inl a have eq: "?res = o1" by simp
          from loop_turn_arr_paths(1)[OF l arr, of r qs changed res o1] Inl a o k
          have "(\<exists>xs1 qs1. o1 = JArr xs1 qs1 \<and> length xs1 \<le> Suc c)
                \<and> paths o1 \<subseteq> paths obj \<union> paths na'" by simp
          with sub' show ?thesis unfolding eq by blast
        next
          case (Inr b)
          obtain o2 att where b: "b = (o2, att)" by (cases b)
          from loop_turn_arr_paths(2)[OF l arr, of r qs changed o2 att] Inr b o k
          obtain xs2 qs2 where att: "att" and o2: "o2 = JArr xs2 qs2"
            and l2: "length xs2 \<le> Suc c" and p2: "paths o2 \<subseteq> paths obj \<union> paths na'"
            by auto
          from call Inr b have eq: "?res = fst (snd (array_loop n p o2 fieldName ?d whitelist
              options parents (Suc counter) na' att True s))"
            by simp
          from att l2 have l2': "length xs2 \<le> (if att then Suc c else c)" by simp
          note IH = 5(2)[OF call[symmetric] refl Inr b[symmetric], rule_format,
                         OF wf na' len' sub']
          from IH[THEN conjunct1, rule_format, OF o2 k l2'] p2 sub'
          show ?thesis unfolding eq by blast
        qed
      qed
      show "\<forall>ps. obj = JObj ps \<longrightarrow> (attached \<or> \<not> is_truthy (lookup ps ?g)) \<longrightarrow>
             paths ?res \<subseteq> paths obj \<union> insert [?g] ((#) ?g ` Collect (listed (map (drop 1) whitelist)))"
      proof (intro allI impI)
        fix ps
        assume o: "obj = JObj ps" and l: "attached \<or> \<not> is_truthy (lookup ps ?g)"
        show "paths ?res \<subseteq> paths obj \<union> insert [?g] ((#) ?g ` Collect (listed (map (drop 1) whitelist)))"
        proof (cases "loop_turn r obj fieldName na' attached changed")
          case (Inl a)
          obtain res o1 where a: "a = (res, o1)" by (cases a)
          from call Inl a have eq: "?res = o1" by simp
          from loop_turn_obj_paths(1)[OF l arr, of r changed res o1] Inl a o
          have "paths o1 \<subseteq> paths obj \<union> insert [?g] ((#) ?g ` paths na')" by simp
          with sub' show ?thesis unfolding eq by blast
        next
          case (Inr b)
          obtain o2 att where b: "b = (o2, att)" by (cases b)
          from loop_turn_obj_paths(2)[OF l arr, of r changed o2 att] Inr b o
          obtain ps2 where att: "att" and o2: "o2 = JObj ps2"
            and p2: "paths o2 \<subseteq> paths obj \<union> insert [?g] ((#) ?g ` paths na')"
            by auto
          from call Inr b have eq: "?res = fst (snd (array_loop n p o2 fieldName ?d whitelist
              options parents (Suc counter) na' att True s))"
            by simp
          from att have l2: "att \<or> \<not> is_truthy (lookup ps2 ?g)" by simp
          note IH = 5(2)[OF call[symmetric] refl Inr b[symmetric], rule_format,
                         OF wf na' len' sub']
          from IH[THEN conjunct2, rule_format, OF o2 l2] p2 sub'
          show ?thesis unfolding eq by blast
        qed
      qed
    qed
  qed
next
  case (6 n p obj fieldName t its entitySchema whitelist options parents seen)
  show ?case by auto
next
  case (7 n p obj fieldName t its es entitySchema whitelist options parents seen)
  let ?g = "key_name fieldName"
  let ?res = "fst (snd (setCustomType n p obj fieldName (FDef t its (Some es)) entitySchema
                          whitelist options parents seen))"
  show ?case
  proof (cases "es_ctor es")
    case False
    then have "?res = obj" by simp
    then show ?thesis by auto
  next
    case True
    obtain r no s where call:
      "map_impl n p (JObj []) es (map (drop 1) whitelist) options (parents @ [fieldName]) seen
         = (r, no, s)"
      by (cases "map_impl n p (JObj []) es (map (drop 1) whitelist) options
                   (parents @ [fieldName]) seen") auto
    from True call have eq: "?res = fst (snd (attach_custom obj fieldName (r, no, s)))" by simp
    show ?thesis
    proof (rule impI)
      assume "distinct_fields (FDef t its (Some es))"
      then have wf: "distinct_properties es" by simp
      have unset: "\<forall>name d. (name, d) \<in> set (es_properties es) \<longrightarrow> def_type d = ''array''
                    \<longrightarrow> \<not> is_truthy (lookup [] name)"
        by (simp add: lookup_def)
      from 7[OF True, rule_format, OF wf refl unset[rule_format]] call
      have sub: "paths no \<subseteq> Collect (listed (map (drop 1) whitelist))"
        by (simp add: paths_empty_object)
      show "(\<forall>xs qs c. obj = JArr xs qs \<longrightarrow> fieldName = KNum c \<longrightarrow> length xs \<le> c \<longrightarrow>
              (\<exists>xs' qs'. ?res = JArr xs' qs' \<and> length xs' \<le> Suc c)
              \<and> paths ?res \<subseteq> paths obj \<union> Collect (listed (map (drop 1) whitelist)))
          \<and> (\<forall>ps. obj = JObj ps \<longrightarrow>
               paths ?res \<subseteq> paths obj \<union> insert [?g] ((#) ?g ` Collect (listed (map (drop 1) whitelist))))"
      proof (rule conjI)
        show "\<forall>xs qs c. obj = JArr xs qs \<longrightarrow> fieldName = KNum c \<longrightarrow> length xs \<le> c \<longrightarrow>
              (\<exists>xs' qs'. ?res = JArr xs' qs' \<and> length xs' \<le> Suc c)
              \<and> paths ?res \<subseteq> paths obj \<union> Collect (listed (map (drop 1) whitelist))"
        proof (intro allI impI)
          fix xs qs c
          assume o: "obj = JArr xs qs" and k: "fieldName = KNum c" and len: "length xs \<le> c"
          from attach_custom_arr_paths[of xs qs fieldName r no s] obtain xs' qs' where
            "fst (snd (attach_custom (JArr xs qs) fieldName (r, no, s))) = JArr xs' qs'"
            "length xs' \<le> Suc (length xs)"
            "paths (JArr xs' qs') \<subseteq> paths (JArr xs qs) \<union> paths no"
            by blast
          with o len sub show "(\<exists>xs' qs'. ?res = JArr xs' qs' \<and> length xs' \<le> Suc c)
              \<and> paths ?res \<subseteq> paths obj \<union> Collect (listed (map (drop 1) whitelist))"
            unfolding eq by auto
        qed
        show "\<forall>ps. obj = JObj ps \<longrightarrow>
               paths ?res \<subseteq> paths obj \<union> insert [?g] ((#) ?g ` Collect (listed (map (drop 1) whitelist)))"
        proof (intro allI impI)
          fix ps
          assume o: "obj = JObj ps"
          from attach_custom_obj_paths[of ps fieldName r no s] o sub
          show "paths ?res \<subseteq> paths obj \<union> insert [?g] ((#) ?g ` Collect (listed (map (drop 1) whitelist)))"
            unfolding eq by blast
        qed
      qed
    qed
  qed
next
  case (8 n p target props c m h whitelist options parents seen)
  then show ?case by simp
next
  case (9 n p target es whitelist options parents changed seen)
  show ?case by simp
next
  case (10 n p target es fieldName "def" rest whitelist options parents changed seen)
  let ?wl = "filter (\<lambda>e. first_segment_is e (KStr fieldName)) whitelist"
  let ?res = "fst (snd (map_fields n p target es ((fieldName, def) # rest) whitelist options
                          parents changed seen))"
  show ?case
  proof (intro impI allI)
    fix ps
    assume dist: "distinct (map fst ((fieldName, def) # rest))"
      and all: "list_all (\<lambda>(name, d). distinct_fields d) ((fieldName, def) # rest)"
      and t: "target = JObj ps"
      and unset: "\<forall>name d. (name, d) \<in> set ((fieldName, def) # rest) \<longrightarrow> def_type d = ''array''
                    \<longrightarrow> \<not> is_truthy (lookup ps name)"
    obtain r t' s where call:
      "setField n p target (KStr fieldName) def (Schema es) ?wl options parents seen = (r, t', s)"
      by (cases "setField n p target (KStr fieldName) def (Schema es) ?wl options parents seen")
         auto
    from all have wf: "distinct_fields def"
      and all_rest: "list_all (\<lambda>(name, d). distinct_fields d) rest" by simp_all
    from unset have u: "def_type def = ''array'' \<longrightarrow> \<not> is_truthy (lookup ps (key_name (KStr fieldName)))"
      by simp
    from 10(1)[rule_format, OF wf, THEN conjunct2, rule_format, OF t u[rule_format]] call
    have sub1: "paths t' \<subseteq> paths target \<union> insert [fieldName] ((#) fieldName ` Collect (listed (map (drop 1) ?wl)))"
      by simp
    have cov: "paths t' \<subseteq> paths target \<union> Collect (listed whitelist)"
    proof (cases "?wl = []")
      case True
      with call have "setField n p target (KStr fieldName) def (Schema es) [] options parents seen
          = (r, t', s)" by simp
      from setField_empty_whitelist[OF this] show ?thesis by simp
    next
      case False
      then obtain e where "e \<in> set ?wl" by (cases ?wl) auto
      then have "e \<in> set whitelist" "first_segment_is e (KStr fieldName)" by auto
      then have "listed whitelist [fieldName]" by (rule listed_head)
      moreover have "listed whitelist (fieldName # q)"
        if "q \<in> Collect (listed (map (drop 1) ?wl))" for q
        using that by (simp add: listed_descend)
      ultimately show ?thesis using sub1 by auto
    qed
    from setField_keyed[OF call[unfolded t]] obtain ps1 where t': "t' = JObj ps1"
      and fr: "\<forall>name. name \<noteq> fieldName \<longrightarrow> map_of ps1 name = map_of ps name"
      by auto
    show "paths ?res \<subseteq> paths target \<union> Collect (listed whitelist)"
    proof (cases r)
      case (Returned b)
      have unset1: "\<forall>name d. (name, d) \<in> set rest \<longrightarrow> def_type d = ''array''
                      \<longrightarrow> \<not> is_truthy (lookup ps1 name)"
      proof (intro allI impI)
        fix name d
        assume mem: "(name, d) \<in> set rest" and "def_type d = ''array''"
        with unset have "\<not> is_truthy (lookup ps name)" by auto
        moreover from mem dist have "name \<noteq> fieldName" by force
        ultimately show "\<not> is_truthy (lookup ps1 name)" using fr by (simp add: lookup_def)
      qed
      from dist have d_rest: "distinct (map fst rest)" by simp
      from 10(2)[OF call[symmetric] refl Returned, rule_format, OF d_rest all_rest t' unset1[rule_format]]
        call Returned
      have "paths ?res \<subseteq> paths t' \<union> Collect (listed whitelist)" by simp
      with cov show ?thesis by blast
    next
      case (Threw e)
      with call cov show ?thesis by simp
    next
      case Diverged
      with call cov show ?thesis by simp
    qed
  qed
qed

lemma map_impl_written_paths:
  assumes "distinct_properties es"
    and "\<forall>name d. (name, d) \<in> set (es_properties es) \<longrightarrow> def_type d = ''array''
                   \<longrightarrow> \<not> is_truthy (lookup ps name)"
  shows "paths (fst (snd (map_impl n p (JObj ps) es whitelist options parents seen)))
           \<subseteq> paths (JObj ps) \<union> Collect (listed whitelist)"
proof -
  have "distinct_properties es \<longrightarrow>
     (\<forall>ps'. JObj ps = JObj ps' \<longrightarrow>
        (\<forall>name d. (name, d) \<in> set (es_properties es) \<longrightarrow> def_type d = ''array''
                    \<longrightarrow> \<not> is_truthy (lookup ps' name)) \<longrightarrow>
        paths (fst (snd (map_impl n p (JObj ps) es whitelist options parents seen)))
          \<subseteq> paths (JObj ps) \<union> Collect (listed whitelist))"
    by (rule written_paths_aux(5))
  with assms show ?thesis by simp
qed

subsection \<open>No over-mapping\<close>

lemma map_fields_keeps_unlisted:
  assumes "\<forall>e \<in> set whitelist. \<not> first_segment_is e (KStr f)"
    and "map_fields n p (JObj ps) es props whitelist options parents changed seen = (r, t', s')"
  shows "\<exists>ps'. t' = JObj ps' \<and> map_of ps' f = map_of ps f"
  using assms(2)
proof (induction props arbitrary: ps changed seen)
  case Nil
  then show ?case by auto
next
  case (Cons fd rest)
  obtain g d where fd: "fd = (g, d)" by (cases fd)
  obtain r1 t1 s1 where call:
    "setField n p (JObj ps) (KStr g) d (Schema es)
       (filter (\<lambda>e. first_segment_is e (KStr g)) whitelist) options parents seen = (r1, t1, s1)"
    by (cases "setField n p (JObj ps) (KStr g) d (Schema es)
                 (filter (\<lambda>e. first_segment_is e (KStr g)) whitelist) options parents seen") auto
  have "\<exists>ps1. t1 = JObj ps1 \<and> map_of ps1 f = map_of ps f"
  proof (cases "g = f")
    case True
    with assms(1) have "filter (\<lambda>e. first_segment_is e (KStr g)) whitelist = []"
      by (simp add: filter_empty_conv)
    with call have "setField n p (JObj ps) (KStr g) d (Schema es) [] options parents seen
        = (r1, t1, s1)" by simp
    from setField_empty_whitelist[OF this] show ?thesis by simp
  next
    case False
    with setField_keyed[OF call] show ?thesis by auto
  qed
  then obtain ps1 where t1: "t1 = JObj ps1" and keep: "map_of ps1 f = map_of ps f" by blast
  show ?case
  proof (cases r1)
    case (Returned b)
    with Cons.prems fd call t1 have
      "map_fields n p (JObj ps1) es rest whitelist options parents (changed \<or> b) s1 = (r, t', s')"
      by simp
    from Cons.IH[OF this] keep show ?thesis by auto
  next
    case (Threw e)
    with Cons.prems fd call t1 keep show ?thesis by auto
  next
    case Diverged
    with Cons.prems fd call t1 keep show ?thesis by auto
  qed
qed

text \<open>
  C4.  \<open>map\<close> itself assigns nothing and fetches nothing, whatever its arguments.  In the
  pass, \<open>map_impl\<close> hands each field the whitelist entries whose first segment is the
  field's name, and \<open>setCustomType\<close> strips that segment on the way down.  When no entry
  has the field's name as first segment, the call of \<open>setField\<close> for the field, on an
  object or an array, fetches nothing, leaves its target as it was (no key assigned, no
  element appended) and reports no change, and after the whole pass over a plain object
  the field holds what it held.  At every depth: on a plain object that holds no value
  yet for the array fields of the schema, a path for which the effective whitelist is
  empty and which the object did not have is not a path of the object the pass leaves.
\<close>

theorem unlisted_field_is_never_written:
  "snd (dp_map n p target es raw options0 parents0 seen) = (target, seen)
   \<and> ((\<forall>e \<in> set whitelist. \<not> first_segment_is e (KStr fieldName)) \<longrightarrow>
        snd (setField n p obj (KStr fieldName) def (Schema es)
               (filter (\<lambda>e. first_segment_is e (KStr fieldName)) whitelist) options parents seen)
          = (obj, seen)
        \<and> fst (setField n p obj (KStr fieldName) def (Schema es)
                 (filter (\<lambda>e. first_segment_is e (KStr fieldName)) whitelist) options parents seen)
             \<noteq> Returned True
        \<and> (\<exists>ps'. fst (snd (map_impl n p (JObj ps) es whitelist options parents seen)) = JObj ps'
                  \<and> lookup ps' fieldName = lookup ps fieldName))
   \<and> (distinct_properties es \<longrightarrow>
        (\<forall>name d. (name, d) \<in> set (es_properties es) \<longrightarrow> def_type d = ''array''
                    \<longrightarrow> \<not> is_truthy (lookup ps name)) \<longrightarrow>
        effective whitelist path = [] \<longrightarrow> path \<notin> paths (JObj ps) \<longrightarrow>
        path \<notin> paths (fst (snd (map_impl n p (JObj ps) es whitelist options parents seen))))"
proof -
  have entry: "snd (dp_map n p target es raw options0 parents0 seen) = (target, seen)"
    by (rule map_leaves_target)
  have level: "(\<forall>e \<in> set whitelist. \<not> first_segment_is e (KStr fieldName)) \<longrightarrow>
        snd (setField n p obj (KStr fieldName) def (Schema es)
               (filter (\<lambda>e. first_segment_is e (KStr fieldName)) whitelist) options parents seen)
          = (obj, seen)
        \<and> fst (setField n p obj (KStr fieldName) def (Schema es)
                 (filter (\<lambda>e. first_segment_is e (KStr fieldName)) whitelist) options parents seen)
             \<noteq> Returned True
        \<and> (\<exists>ps'. fst (snd (map_impl n p (JObj ps) es whitelist options parents seen)) = JObj ps'
                  \<and> lookup ps' fieldName = lookup ps fieldName)"
  proof
    assume unlisted: "\<forall>e \<in> set whitelist. \<not> first_segment_is e (KStr fieldName)"
    then have empty: "filter (\<lambda>e. first_segment_is e (KStr fieldName)) whitelist = []"
      by (simp add: filter_empty_conv)
    obtain r o' s' where call:
      "setField n p obj (KStr fieldName) def (Schema es) [] options parents seen = (r, o', s')"
      using prod_cases3 by blast
    from setField_empty_whitelist[OF call] call empty have one:
      "snd (setField n p obj (KStr fieldName) def (Schema es)
              (filter (\<lambda>e. first_segment_is e (KStr fieldName)) whitelist) options parents seen)
         = (obj, seen)"
      "fst (setField n p obj (KStr fieldName) def (Schema es)
              (filter (\<lambda>e. first_segment_is e (KStr fieldName)) whitelist) options parents seen)
         \<noteq> Returned True"
      by simp_all
    obtain props c m h where es: "es = ESchema props c m h" by (cases es)
    obtain r2 t2 s2 where pass:
      "map_fields n p (JObj ps) es props whitelist options parents False seen = (r2, t2, s2)"
      using prod_cases3 by blast
    from map_fields_keeps_unlisted[OF unlisted pass] pass es have two:
      "\<exists>ps'. fst (snd (map_impl n p (JObj ps) es whitelist options parents seen)) = JObj ps'
             \<and> lookup ps' fieldName = lookup ps fieldName"
      by (auto simp: lookup_def)
    from one two show
      "snd (setField n p obj (KStr fieldName) def (Schema es)
              (filter (\<lambda>e. first_segment_is e (KStr fieldName)) whitelist) options parents seen)
         = (obj, seen)
       \<and> fst (setField n p obj (KStr fieldName) def (Schema es)
                (filter (\<lambda>e. first_segment_is e (KStr fieldName)) whitelist) options parents seen)
            \<noteq> Returned True
       \<and> (\<exists>ps'. fst (snd (map_impl n p (JObj ps) es whitelist options parents seen)) = JObj ps'
                 \<and> lookup ps' fieldName = lookup ps fieldName)"
      by blast
  qed
  have depth: "distinct_properties es \<longrightarrow>
        (\<forall>name d. (name, d) \<in> set (es_properties es) \<longrightarrow> def_type d = ''array''
                    \<longrightarrow> \<not> is_truthy (lookup ps name)) \<longrightarrow>
        effective whitelist path = [] \<longrightarrow> path \<notin> paths (JObj ps) \<longrightarrow>
        path \<notin> paths (fst (snd (map_impl n p (JObj ps) es whitelist options parents seen)))"
  proof (intro impI)
    assume "distinct_properties es"
      and "\<forall>name d. (name, d) \<in> set (es_properties es) \<longrightarrow> def_type d = ''array''
                     \<longrightarrow> \<not> is_truthy (lookup ps name)"
    then have "paths (fst (snd (map_impl n p (JObj ps) es whitelist options parents seen)))
        \<subseteq> paths (JObj ps) \<union> Collect (listed whitelist)"
      by (rule map_impl_written_paths)
    moreover assume "effective whitelist path = []" and "path \<notin> paths (JObj ps)"
    ultimately show
      "path \<notin> paths (fst (snd (map_impl n p (JObj ps) es whitelist options parents seen)))"
      by (auto simp: listed_def)
  qed
  show ?thesis by (rule conjI[OF entry conjI[OF level depth]])
qed

theorem unlisted_field_is_never_written_witness:
  "snd (dp_map 1 (family_parser sample_host) (JObj []) family
          [''head_name'', ''head_x_age''] None None [])
     = (JObj [], [])
   \<and> snd (setField 1 (family_parser sample_host) (JObj []) (KStr ''pet'')
            (FDef ''string'' None None) (Schema family)
            (filter (\<lambda>e. first_segment_is e (KStr ''pet''))
               [[''head'', ''name''], [''head'', ''x'', ''age'']])
            \<lparr> overwrite = True \<rparr> [] [])
       = (JObj [], [])
   \<and> (\<exists>ps'. fst (snd (map_impl 1 (family_parser sample_host) (JObj []) family
                         [[''head'', ''name''], [''head'', ''x'', ''age'']]
                         \<lparr> overwrite = True \<rparr> [] [])) = JObj ps'
             \<and> lookup ps' ''pet'' = lookup [] ''pet'')
   \<and> effective [[''head'', ''name''], [''head'', ''x'', ''age'']] [''head'', ''age''] = []
   \<and> [''head'', ''age'']
       \<notin> paths (fst (snd (map_impl 1 (family_parser sample_host) (JObj []) family
                             [[''head'', ''name''], [''head'', ''x'', ''age'']]
                             \<lparr> overwrite = True \<rparr> [] [])))
   \<and> map_impl 1 (family_parser sample_host) (JObj []) family
        [[''head'', ''name''], [''head'', ''x'', ''age'']] \<lparr> overwrite = True \<rparr> [] []
      = (Returned True, JObj [(''head'', JObj [(''name'', JStr ''jeswin'')])], [''head_name''])"
proof -
  have built:
    "map_impl 1 (family_parser sample_host) (JObj []) family
       [[''head'', ''name''], [''head'', ''x'', ''age'']] \<lparr> overwrite = True \<rparr> [] []
     = (Returned True, JObj [(''head'', JObj [(''name'', JStr ''jeswin'')])], [''head_name''])"
    by code_simp
  have unlisted: "\<forall>e \<in> set [[''head'', ''name''], [''head'', ''x'', ''age'']].
      \<not> first_segment_is e (KStr ''pet'')"
    by simp
  have names: "distinct_properties family"
    by (simp add: family_def person_def)
  have unset: "\<forall>name d. (name, d) \<in> set (es_properties family) \<longrightarrow> def_type d = ''array''
      \<longrightarrow> \<not> is_truthy (lookup [] name)"
    by (simp add: lookup_def)
  have absent: "effective [[''head'', ''name''], [''head'', ''x'', ''age'']] [''head'', ''age''] = []"
    by simp
  have fresh: "[''head'', ''age''] \<notin> paths (JObj [])"
    by (simp add: paths.simps)
  note all = unlisted_field_is_never_written
    [where n = 1 and p = "family_parser sample_host" and target = "JObj []" and es = family
       and raw = "[''head_name'', ''head_x_age'']" and ?options0.0 = None and ?parents0.0 = None
       and seen = "[]" and whitelist = "[[''head'', ''name''], [''head'', ''x'', ''age'']]"
       and fieldName = "''pet''" and obj = "JObj []" and ?def = "FDef ''string'' None None"
       and options = "\<lparr> overwrite = True \<rparr>" and parents = "[]" and ps = "[]"
       and path = "[''head'', ''age'']"]
  from all have entry:
    "snd (dp_map 1 (family_parser sample_host) (JObj []) family
            [''head_name'', ''head_x_age''] None None []) = (JObj [], [])"
    by (rule conjunct1)
  from all[THEN conjunct2, THEN conjunct1, rule_format, OF unlisted[rule_format]]
  have level:
    "snd (setField 1 (family_parser sample_host) (JObj []) (KStr ''pet'')
            (FDef ''string'' None None) (Schema family)
            (filter (\<lambda>e. first_segment_is e (KStr ''pet''))
               [[''head'', ''name''], [''head'', ''x'', ''age'']])
            \<lparr> overwrite = True \<rparr> [] [])
       = (JObj [], [])"
    "\<exists>ps'. fst (snd (map_impl 1 (family_parser sample_host) (JObj []) family
                       [[''head'', ''name''], [''head'', ''x'', ''age'']]
                       \<lparr> overwrite = True \<rparr> [] [])) = JObj ps'
           \<and> lookup ps' ''pet'' = lookup [] ''pet''"
    by blast+
  from all[THEN conjunct2, THEN conjunct2, rule_format, OF names unset[rule_format] absent fresh]
  have depth:
    "[''head'', ''age'']
       \<notin> paths (fst (snd (map_impl 1 (family_parser sample_host) (JObj []) family
                             [[''head'', ''name''], [''head'', ''x'', ''age'']]
                             \<lparr> overwrite = True \<rparr> [] [])))" .
  from entry level absent depth built show ?thesis by (intro conjI)
qed

subsection \<open>Arrays\<close>

text \<open>
  C3.  The CSV scenario of the specification: the field \<open>customerids\<close> is marked in
  \<open>mapping\<close>, its items are integers, the source holds \<open>"1,54,66"\<close> and the field is
  whitelisted.  Through \<open>map\<close> the call throws a TypeError.  In the pass itself, given
  the whitelist already split, \<open>whitelist.indexOf(fieldName)\<close> looks for a string among
  arrays of segments and finds none: nothing is fetched, the target is as it was, and
  no change is reported.
\<close>

theorem csv_array_scenario_writes_nothing:
  "dp_map n (order_parser h) target order [''customerids''] None None []
     = (Threw TypeError, target, [])
   \<and> map_impl n (order_parser h) target order [[''customerids'']] options [] []
     = (Returned False, target, [])"
  by (simp add: model_defs order_def order_parser_def)

text \<open>
  The loop of the indexed mode ends at the first index for which \<open>setField\<close> reports no
  change, whatever the later indices would yield.
\<close>

lemma array_loop_stops_at_first_unchanged:
  assumes "setField n p newArray (KNum counter) it (Items (FDef t (Some it) es)) whitelist
             options parents seen = (Returned False, newArray', seen')"
  shows "array_loop (Suc n) p obj fieldName (FDef t (Some it) es) whitelist options parents
           counter newArray attached changed seen
         = (Returned changed, (if attached then put_prop obj fieldName newArray' else obj), seen')"
  using assms by (simp add: loop_turn_def)

text \<open>
  For an array of objects with flat keys for the elements 1, 2 and 4, the pass builds
  the elements 1 and 2, looks for element 3 and never fetches a key of element 4.
\<close>

lemma customers_scenario_budget_5:
  "map_impl 5 (customers_parser sample_host) (JObj []) customers [[''customers'', ''name'']]
     \<lparr> overwrite = True \<rparr> [] []
   = (Returned True,
      JObj [(''customers'',
             JArr [JObj [(''name'', JStr ''ann'')], JObj [(''name'', JStr ''bob'')]] [])],
      [''customers_1_name'', ''customers_2_name'', ''customers_3_name''])"
  by code_simp

lemma customers_scenario:
  "map_impl (5 + k) (customers_parser sample_host) (JObj []) customers
     [[''customers'', ''name'']] \<lparr> overwrite = True \<rparr> [] []
   = (Returned True,
      JObj [(''customers'',
             JArr [JObj [(''name'', JStr ''ann'')], JObj [(''name'', JStr ''bob'')]] [])],
      [''customers_1_name'', ''customers_2_name'', ''customers_3_name''])"
  using map_impl_budget[OF customers_scenario_budget_5] by simp

text \<open>
  C5.  An indexed array of integers whose source has the flat keys \<open>ids_1\<close>, \<open>ids_2\<close> and
  \<open>ids_4\<close>, with the field whitelisted: through \<open>map\<close> the call throws a TypeError, and
  the pass itself, given the whitelist already split, produces no element at all, not
  the elements 1 and 2.
\<close>

theorem indexed_scalar_scenario_yields_no_element:
  "dp_map n (ids_parser h) (JObj []) ids [''ids''] None None [] = (Threw TypeError, JObj [], [])
   \<and> map_impl (Suc n) (ids_parser h) (JObj []) ids [[''ids'']] options [] []
     = (Returned False, JObj [], [])"
  by (simp add: model_defs ids_def ids_parser_def)

lemma scalar_not_dispatched:
  assumes "def_type it \<in> {''string'', ''integer'', ''number'', ''boolean''}"
  shows "setField n p obj (KNum counter) it entitySchema whitelist options parents seen
           = (Returned False, obj, seen)"
  using assms by (auto simp: setField.simps isPrimitiveType_def)

text \<open>
  C6.  An array in indexed mode whose items are strings, integers, numbers or booleans:
  whatever the whitelist and the value source, \<open>setArray\<close> returns at the first index
  without a change, having fetched nothing and with its target as it was (it throws
  only if the target has no properties to read, being \<open>undefined\<close> or \<open>null\<close>).  The
  guard of \<open>setField\<close> compares the first segment of a whitelist entry, a string, with
  the counter, a number.
\<close>

theorem indexed_scalar_array_yields_nothing:
  assumes "\<not> mapping_has entitySchema fieldName"
    and "def_items def = Some it"
    and "def_type it \<in> {''string'', ''integer'', ''number'', ''boolean''}"
  shows "setArray (Suc n) p obj fieldName def entitySchema whitelist options parents seen
           = (case get_prop obj fieldName of Inl e \<Rightarrow> Threw e | Inr cur \<Rightarrow> Returned False,
              obj, seen)"
proof (cases "get_prop obj fieldName")
  case (Inl e)
  with assms(1) show ?thesis by (simp add: setArray.simps)
next
  case (Inr cur)
  obtain t es where d: "def = FDef t (Some it) es"
    using assms(2) by (cases "def") auto
  from Inr assms(1,3) d show ?thesis
    by (simp add: setArray.simps scalar_not_dispatched[OF assms(3)] loop_turn_def put_prop_same)
qed

theorem indexed_scalar_array_yields_nothing_witness:
  "\<not> mapping_has (Schema ids) (KStr ''ids'')
   \<and> def_items (FDef ''array'' (Some (FDef ''integer'' None None)) None)
        = Some (FDef ''integer'' None None)
   \<and> def_type (FDef ''integer'' None None) \<in> {''string'', ''integer'', ''number'', ''boolean''}
   \<and> setArray (Suc 0) (ids_parser sample_host) (JObj []) (KStr ''ids'')
         (FDef ''array'' (Some (FDef ''integer'' None None)) None) (Schema ids) [[''ids'']]
         \<lparr> overwrite = True \<rparr> [] []
       = (Returned False, JObj [], [])"
  using indexed_scalar_array_yields_nothing
          [where entitySchema = "Schema ids" and fieldName = "KStr ''ids''"
             and ?def = "FDef ''array'' (Some (FDef ''integer'' None None)) None"
             and it = "FDef ''integer'' None None" and n = 0
             and p = "ids_parser sample_host" and obj = "JObj []" and whitelist = "[[''ids'']]"
             and options = "\<lparr> overwrite = True \<rparr>" and parents = "[]" and seen = "[]"]
  by (simp add: ids_def lookup_def)

lemma grid_scenario_budget_5:
  "map_impl 5 (grid_parser sample_host) (JObj []) grid [[''grid'', ''v'']]
     \<lparr> overwrite = True \<rparr> [] []
   = (Returned True,
      JObj [(''grid'', JArr [JUndefined, JArr [JObj [(''v'', JStr ''x'')]] []] [])],
      [''grid_1_1_v'', ''grid_1_2_v'', ''grid_2_1_v''])"
  by code_simp

text \<open>
  C9.  An array in indexed mode whose items are themselves arrays in indexed mode: the
  pass does not fail.  For every loop budget of at least 5 it returns with a change and
  has put an array of arrays on the target, the inner array at index 1 after a hole at
  index 0.
\<close>

theorem nested_indexed_array_is_built:
  "map_impl (5 + k) (grid_parser sample_host) (JObj []) grid [[''grid'', ''v'']]
     \<lparr> overwrite = True \<rparr> [] []
   = (Returned True,
      JObj [(''grid'', JArr [JUndefined, JArr [JObj [(''v'', JStr ''x'')]] []] [])],
      [''grid_1_1_v'', ''grid_1_2_v'', ''grid_2_1_v''])"
  using map_impl_budget[OF grid_scenario_budget_5] by simp

text \<open>
  Through \<open>map\<close>, which reaches the pass only with an empty whitelist, the same schema
  makes the call return \<open>false\<close> without an error.
\<close>

lemma map_nested_indexed_array_returns:
  "dp_map (Suc (Suc n)) (grid_parser h) (JObj []) grid [] None None []
     = (Returned False, JObj [], [])"
  by (simp add: model_defs cell_def grid_def grid_parser_def)

text \<open>In CSV mode an array whose items are arrays does make the pass fail, untouched.\<close>

lemma csv_array_of_arrays_throws:
  assumes "mapping_has entitySchema fieldName" and "def_items def = Some it"
    and "def_type it = ''array''"
  shows "setArray n p obj fieldName def entitySchema whitelist options parents seen
           = (Threw (Error ''Cannot map array of arrays''), obj, seen)"
  using assms by (simp add: setArray.simps setArray_csv_def)

subsection \<open>Scalars\<close>

text \<open>
  C10.  A scalar field whose flat key has a truthy value in the source.  \<open>getField\<close> is
  called without a definition and so converts the raw value as a string, which escapes
  it; \<open>setSimpleType\<close> hands that result, not the raw value, to \<open>parseSimpleType\<close> under
  the field's own type and stores what comes back.  For a string field that is not an
  HTML field the stored value is the raw value escaped twice.
\<close>

theorem scalar_value_converted_twice:
  assumes "def_type def \<in> {''string'', ''integer'', ''number'', ''boolean''}"
    and "flat = join (delimiter p) (map key_name (parents @ [fieldName]))"
    and "is_truthy (getter p flat)"
    and "once = JStr (escape (lib p) (getter p flat))"
    and "is_truthy once"
    and "is_object obj"
  shows "getField p flat DefAbsent seen = (Inr once, seen @ [flat])
    \<and> (\<exists>twice. parseSimpleType (lib p) once fieldName def (Some entitySchema) = Inr twice
          \<and> setSimpleType p obj fieldName def entitySchema whitelist options parents seen
              = (Returned True,
                 (if is_array obj then array_push obj twice
                  else put_prop obj fieldName
                         (if overwrite options then twice
                          else case get_prop obj fieldName of
                                 Inr cur \<Rightarrow> if is_truthy cur then cur else twice
                               | Inl e \<Rightarrow> twice)),
                 seen @ [flat])
          \<and> (def_type def = ''string'' \<and> \<not> html_has (Some entitySchema) fieldName
                \<longrightarrow> twice = JStr (escape (lib p) (JStr (escape (lib p) (getter p flat))))))"
proof -
  have first: "getField p flat DefAbsent seen = (Inr once, seen @ [flat])"
    using assms(3,4) by (simp add: getField_def parseSimpleType_def)
  obtain twice where second:
    "parseSimpleType (lib p) once fieldName def (Some entitySchema) = Inr twice"
    using assms(1,5) by (auto simp: parseSimpleType_def)
  have getp: "\<exists>cur. get_prop obj fieldName = Inr cur"
    using assms(6) by (cases obj) (auto split: option.splits)
  have store:
    "setSimpleType p obj fieldName def entitySchema whitelist options parents seen
       = (Returned True,
          (if is_array obj then array_push obj twice
           else put_prop obj fieldName
                  (if overwrite options then twice
                   else case get_prop obj fieldName of
                          Inr cur \<Rightarrow> if is_truthy cur then cur else twice
                        | Inl e \<Rightarrow> twice)),
          seen @ [flat])"
    using first second assms(2,5,6) getp
    by (auto simp: setSimpleType_def set_prop_def)
  have str: "def_type def = ''string'' \<and> \<not> html_has (Some entitySchema) fieldName
      \<longrightarrow> twice = JStr (escape (lib p) (JStr (escape (lib p) (getter p flat))))"
    using second assms(4,5) by (auto simp: parseSimpleType_def)
  from first second store str show ?thesis by blast
qed

theorem scalar_value_converted_twice_witness:
  "getField (amp_parser sample_host) ''name'' DefAbsent [] = (Inr (JStr ''a&amp;b''), [''name''])
   \<and> setSimpleType (amp_parser sample_host) (JObj []) (KStr ''name'') (FDef ''string'' None None)
        (Schema person) [[''name'']] \<lparr> overwrite = True \<rparr> [] []
      = (Returned True, JObj [(''name'', JStr ''a&amp;amp;b'')], [''name''])"
  using scalar_value_converted_twice
          [where ?def = "FDef ''string'' None None" and flat = "''name''"
             and p = "amp_parser sample_host" and parents = "[]" and fieldName = "KStr ''name''"
             and once = "JStr ''a&amp;b''" and obj = "JObj []" and seen = "[]"
             and entitySchema = "Schema person" and whitelist = "[[''name'']]"
             and options = "\<lparr> overwrite = True \<rparr>"]
  by (simp add: model_defs person_def amp_parser_def sample_host_def)

text \<open>
  In the pass itself, with \<open>overwrite\<close> false, the field is assigned
  \<open>obj[fieldName] || result\<close>, which tests the value held for truthiness.  In this run
  a value that is set but falsy, the age 0, gives way to the fetched one.
\<close>

lemma falsy_value_is_replaced:
  "map_impl 1 (person_parser sample_host) (JObj [(''age'', JNum (Fin 0))]) person [[''age'']]
     \<lparr> overwrite = False \<rparr> [] []
   = (Returned True, JObj [(''age'', JNum (Fin 33))], [''age''])"
  by code_simp

text \<open>
  In this run of the pass the nested object is not filled in place: a value for
  \<open>head_name\<close> is found, and the object the constructor has made takes the place of the
  one on the target, together with the name it held.
\<close>

lemma nested_object_is_replaced:
  "map_impl 1 (household_parser sample_host) (JObj [(''head'', JObj [(''name'', JStr ''old'')])])
     household [[''head'', ''name'']] \<lparr> overwrite = False \<rparr> [] []
   = (Returned True, JObj [(''head'', JObj [(''name'', JStr ''jeswin'')])], [''head_name''])"
  by code_simp






subsection \<open>A second application\<close>

text \<open>
  The pass itself, on an array of objects with \<open>overwrite\<close> true.  The field takes up the
  array the target already holds and the elements built are appended to it: in this run
  a second pass over the target of the first doubles the array.
\<close>

lemma second_pass_appends:

  "map_impl 5 (customers_parser sample_host) (JObj []) customers [[''customers'', ''name'']]
     \<lparr> overwrite = True \<rparr> [] []
   = (Returned True,
      JObj [(''customers'',
             JArr [JObj [(''name'', JStr ''ann'')], JObj [(''name'', JStr ''bob'')]] [])],
      [''customers_1_name'', ''customers_2_name'', ''customers_3_name''])
   \<and> map_impl 5 (customers_parser sample_host)
         (JObj [(''customers'',
                 JArr [JObj [(''name'', JStr ''ann'')], JObj [(''name'', JStr ''bob'')]] [])])
         customers [[''customers'', ''name'']] \<lparr> overwrite = True \<rparr> [] []
   = (Returned True,
      JObj [(''customers'',
             JArr [JObj [(''name'', JStr ''ann'')], JObj [(''name'', JStr ''bob'')],
                   JObj [(''name'', JStr ''ann'')], JObj [(''name'', JStr ''bob'')]] [])],
      [''customers_1_name'', ''customers_2_name'', ''customers_3_name''])"
  by code_simp













end
